theory Spec2Isabelle
  imports Complex_Main
begin

section \<open>Data model\<close>

text \<open>
  The source is \<^verbatim>\<open>src/simulators/matrix_product_state/svd.cpp\<close>.  A \<^verbatim>\<open>double\<close> (and the
  \<^verbatim>\<open>long double\<close> of the underflow rescue) is modelled by \<^typ>\<open>real\<close> and \<^verbatim>\<open>complex_t\<close> by
  \<^typ>\<open>complex\<close>: arithmetic is exact, there is no rounding, no NaN and no infinity.
  \<^verbatim>\<open>rvector_t\<close> is \<^verbatim>\<open>std::vector<double>\<close>, a list.  Indexing a vector outside its
  storage is undefined behaviour in C++; the model makes it the error value
  \<open>OutOfRange\<close>, carrying the name of the vector and the index.  The one read between
  the size of a vector and the end of its storage, in \<^verbatim>\<open>reduce_zeros\<close> after \<^verbatim>\<open>S.resize\<close>,
  is modelled there.
\<close>

datatype error =
    OutOfRange string int
  | ShapeError
  | RuntimeError string
  | OutOfFuel

type_synonym rvector_t = "real list"

text \<open>Sequencing of fallible steps: the first error ends the computation.\<close>

definition ebind :: "error + 'a \<Rightarrow> ('a \<Rightarrow> error + 'b) \<Rightarrow> error + 'b" where
  "ebind m f = (case m of Inl e \<Rightarrow> Inl e | Inr x \<Rightarrow> f x)"

text \<open>A counted \<^verbatim>\<open>for\<close> loop without \<^verbatim>\<open>break\<close>: the body runs on each index in order.\<close>

fun forM :: "'i list \<Rightarrow> ('i \<Rightarrow> 's \<Rightarrow> error + 's) \<Rightarrow> 's \<Rightarrow> error + 's" where
  "forM [] body s = Inr s"
| "forM (i # is) body s = (case body i s of Inl e \<Rightarrow> Inl e | Inr s' \<Rightarrow> forM is body s')"

text \<open>\<^verbatim>\<open>v[i]\<close> as an rvalue and \<^verbatim>\<open>v[i] = x\<close>; the index is a C++ \<^verbatim>\<open>int\<close> and may be negative.\<close>

definition vread :: "string \<Rightarrow> rvector_t \<Rightarrow> int \<Rightarrow> error + real" where
  "vread nm v i = (if 0 \<le> i \<and> i < int (length v) then Inr (v ! nat i) else Inl (OutOfRange nm i))"

definition vwrite :: "string \<Rightarrow> rvector_t \<Rightarrow> int \<Rightarrow> real \<Rightarrow> error + rvector_t" where
  "vwrite nm v i x = (if 0 \<le> i \<and> i < int (length v) then Inr (v[nat i := x]) else Inl (OutOfRange nm i))"

text \<open>
  Modelled from the spec: the matrix class \<^verbatim>\<open>cmatrix_t\<close> (\<^verbatim>\<open>framework/matrix.hpp\<close>) is not
  part of the source file.  The spec's data model has it as a dense rectangular container
  of complex values with dimensions (rows, cols), element access \<open>M(i,j)\<close> defined for
  \<open>i < rows\<close> and \<open>j < cols\<close>, in-place truncation of either dimension that drops the
  trailing slice and never grows (growing is a shape error), and a conjugate transpose.
\<close>

record cmatrix_t =
  GetRows :: nat
  GetColumns :: nat
  elem :: "nat \<Rightarrow> nat \<Rightarrow> complex"

definition cmatrix :: "nat \<Rightarrow> nat \<Rightarrow> cmatrix_t" where
  "cmatrix m n = \<lparr>GetRows = m, GetColumns = n, elem = (\<lambda>i j. 0)\<rparr>"

definition mput :: "cmatrix_t \<Rightarrow> nat \<Rightarrow> nat \<Rightarrow> complex \<Rightarrow> cmatrix_t" where
  "mput M i j x = M\<lparr>elem := (elem M)(i := (elem M i)(j := x))\<rparr>"

definition mat_at :: "string \<Rightarrow> cmatrix_t \<Rightarrow> nat \<Rightarrow> nat \<Rightarrow> error + complex" where
  "mat_at nm M i j =
     (if i < GetRows M \<and> j < GetColumns M then Inr (elem M i j)
      else Inl (OutOfRange nm (int (if i < GetRows M then j else i))))"

definition resize :: "cmatrix_t \<Rightarrow> nat \<Rightarrow> nat \<Rightarrow> error + cmatrix_t" where
  "resize M r c =
     (if r \<le> GetRows M \<and> c \<le> GetColumns M then Inr (M\<lparr>GetRows := r, GetColumns := c\<rparr>)
      else Inl ShapeError)"

definition dagger :: "cmatrix_t \<Rightarrow> cmatrix_t" where
  "dagger M = \<lparr>GetRows = GetColumns M, GetColumns = GetRows M, elem = (\<lambda>i j. cnj (elem M j i))\<rparr>"

text \<open>Two matrices are the same matrix when they agree in shape and on every entry in range.\<close>

definition same_matrix :: "cmatrix_t \<Rightarrow> cmatrix_t \<Rightarrow> bool" where
  "same_matrix M N \<longleftrightarrow>
     GetRows M = GetRows N \<and> GetColumns M = GetColumns N \<and>
     (\<forall>i<GetRows M. \<forall>j<GetColumns M. elem M i j = elem N i j)"

text \<open>
  Modelled from the spec: \<^verbatim>\<open>Linalg::almost_equal\<close> (\<^verbatim>\<open>framework/linalg/almost_equal.hpp\<close>) is
  not part of the source file.  The spec gives every use of it as a comparison of an
  absolute difference with the tolerance passed: \<open>| |A(i,j)| - |P(i,j)| | \<le> THRESHOLD\<close>,
  \<open>|1 - s2| > THRESHOLD\<close>.
\<close>

definition almost_equal :: "real \<Rightarrow> real \<Rightarrow> real \<Rightarrow> bool" where
  "almost_equal f1 f2 max_diff \<longleftrightarrow> \<bar>f1 - f2\<bar> \<le> max_diff"

subsection \<open>Constants\<close>

definition mul_factor :: real where "mul_factor = 100"
definition tiny_factor :: real where "tiny_factor = 10 ^ 30"
definition zero_threshold :: real where "zero_threshold = 1 / 10 ^ 50"
definition THRESHOLD :: real where "THRESHOLD = 1 / 10 ^ 9"
definition NUM_SVD_TRIES :: int where "NUM_SVD_TRIES = 15"

text \<open>\<^verbatim>\<open>std::norm\<close> of a \<^verbatim>\<open>double\<close> is its square.\<close>

definition norm_d :: "real \<Rightarrow> real" where
  "norm_d x = x * x"

section \<open>\<^verbatim>\<open>diag\<close>\<close>

text \<open>The body of the inner loop, line 75: \<^verbatim>\<open>Res(i, j) = (i == j ? complex_t(S[i]) : 0)\<close>.\<close>

definition diag_cell :: "rvector_t \<Rightarrow> nat \<Rightarrow> nat \<Rightarrow> cmatrix_t \<Rightarrow> error + cmatrix_t" where
  "diag_cell S i j Res =
     (if i = j then ebind (vread ''S'' S (int i)) (\<lambda>s. Inr (mput Res i j (complex_of_real s)))
      else Inr (mput Res i j 0))"

definition diag :: "rvector_t \<Rightarrow> nat \<Rightarrow> nat \<Rightarrow> error + cmatrix_t" where
  "diag S m n = forM [0..<m] (\<lambda>i. forM [0..<n] (diag_cell S i)) (cmatrix m n)"

section \<open>\<^verbatim>\<open>num_of_SV\<close> and \<^verbatim>\<open>reduce_zeros\<close>\<close>

text \<open>
  \<^verbatim>\<open>CHOP_THRESHOLD\<close> is a macro of \<^verbatim>\<open>svd.hpp\<close>, which is not part of the source file; the
  functions below take it as their first argument \<open>chop\<close>.
\<close>

definition num_of_SV :: "rvector_t \<Rightarrow> real \<Rightarrow> nat" where
  "num_of_SV S threshold = length (filter (\<lambda>s. norm_d s > threshold) S)"

text \<open>
  The sweep of lines 136-144: \<open>i\<close> runs down from \<open>new_SV_num - 1\<close> while \<open>i > 0\<close>; the
  result is \<open>new_SV_num\<close> at the end of the loop (\<open>sum_squares\<close> is not read after it).
\<close>

function budget_sweep :: "rvector_t \<Rightarrow> real \<Rightarrow> int \<Rightarrow> nat \<Rightarrow> real \<Rightarrow> error + nat" where
  "budget_sweep S truncation_threshold i new_SV_num sum_squares =
     (if i > 0 then
        ebind (vread ''S'' S i) (\<lambda>s.
          if sum_squares + norm_d s < truncation_threshold
          then budget_sweep S truncation_threshold (i - 1) new_SV_num (sum_squares + norm_d s)
          else Inr (nat (i + 1)))
      else Inr new_SV_num)"
  by pat_completeness auto
termination
  by (relation "measure (\<lambda>(S, th, i, n, s). nat i)") auto

text \<open>Lines 126-144: the rank kept, from the count of significant values, the cap and the sweep.\<close>

definition truncated_rank :: "real \<Rightarrow> rvector_t \<Rightarrow> nat \<Rightarrow> real \<Rightarrow> error + nat" where
  "truncated_rank chop S max_bond_dimension truncation_threshold =
     (let SV_num = num_of_SV S chop;
          new_SV_num = (if max_bond_dimension < SV_num then max_bond_dimension else SV_num)
      in budget_sweep S truncation_threshold (int new_SV_num - 1) new_SV_num 0)"

text \<open>Lines 163-171: the check of the sum of squares and the division by its square root.\<close>

definition renormalize :: "rvector_t \<Rightarrow> rvector_t" where
  "renormalize S =
     (let new_sum_squares = (\<Sum>s\<leftarrow>S. norm_d s) in
      if \<not> almost_equal (1 - new_sum_squares) 0 THRESHOLD
      then (let sqrt_sum = sqrt new_sum_squares in map (\<lambda>s. s / sqrt_sum) S)
      else S)"

record reduced =
  red_U :: cmatrix_t
  red_S :: rvector_t
  red_V :: cmatrix_t
  discarded_value :: real

text \<open>
  \<^verbatim>\<open>reduce_zeros\<close>, lines 123-173.  \<^verbatim>\<open>S.resize(new_SV_num)\<close> is \<^verbatim>\<open>std::vector::resize\<close>: the
  vector keeps its first \<open>new_SV_num\<close> entries (and would get zeros appended if it were
  shorter).  Shrinking a \<^verbatim>\<open>std::vector<double>\<close> does not touch its storage: the entries
  past the new size stay where they were, and \<^verbatim>\<open>operator[]\<close> does not check its index
  against the size.  So the loop of lines 159-161, which reads \<open>S[i]\<close> for
  \<open>new_SV_num \<le> i < SV_num\<close> after the resize of line 146, reads the entries that \<open>S\<close> held
  before the resize.  The model keeps that storage, \<open>store\<close>, next to the resized vector
  \<open>S'\<close>, and the loop reads from it; an index past the storage is \<open>OutOfRange\<close>.
\<close>

definition reduce_zeros ::
  "real \<Rightarrow> cmatrix_t \<Rightarrow> rvector_t \<Rightarrow> cmatrix_t \<Rightarrow> nat \<Rightarrow> real \<Rightarrow> bool \<Rightarrow> error + reduced" where
  "reduce_zeros chop U S V max_bond_dimension truncation_threshold mps_lapack =
     (let SV_num = num_of_SV S chop in
      ebind (truncated_rank chop S max_bond_dimension truncation_threshold) (\<lambda>new_SV_num.
      ebind (resize U (GetRows U) new_SV_num) (\<lambda>U'.
      let store = S @ replicate (new_SV_num - length S) 0;
          S' = take new_SV_num store in
      ebind (if mps_lapack then resize V new_SV_num (GetColumns V)
             else resize V (GetRows V) new_SV_num) (\<lambda>V'.
      ebind (if new_SV_num < SV_num
             then forM [new_SV_num..<SV_num]
                    (\<lambda>i discarded_value. ebind (vread ''S'' store (int i)) (\<lambda>s. Inr (discarded_value + norm_d s))) 0
             else Inr 0) (\<lambda>discarded_value.
      Inr \<lparr>red_U = U', red_S = renormalize S', red_V = V', discarded_value = discarded_value\<rparr>)))))"

section \<open>\<^verbatim>\<open>validate_SVD_result\<close>\<close>

text \<open>
  Modelled from the spec: the product of two matrices (\<^verbatim>\<open>operator*\<close> of the matrix class,
  not part of the source file), the spec's \<open>U \<cdot> diag(S) \<cdot> V\<^sup>\<dagger>\<close>.  The result has the rows of the
  left factor and the columns of the right one; the sum runs over the columns of the left.
\<close>

definition mat_mul :: "cmatrix_t \<Rightarrow> cmatrix_t \<Rightarrow> cmatrix_t" where
  "mat_mul A B =
     \<lparr>GetRows = GetRows A, GetColumns = GetColumns B,
      elem = (\<lambda>i j. \<Sum>k<GetColumns A. elem A i k * elem B k j)\<rparr>"

text \<open>The test of lines 202-205 on one entry; the state of the two loops is empty.\<close>

definition validate_entry :: "cmatrix_t \<Rightarrow> cmatrix_t \<Rightarrow> nat \<Rightarrow> nat \<Rightarrow> unit \<Rightarrow> error + unit" where
  "validate_entry A product ii jj u =
     ebind (mat_at ''A'' A ii jj) (\<lambda>a.
     ebind (mat_at ''product'' product ii jj) (\<lambda>p.
       if \<not> almost_equal (cmod a) (cmod p) THRESHOLD
       then Inl (RuntimeError ''Error: Wrong SVD calculations: A != USV*'')
       else Inr ()))"

definition validate_SVD_result :: "cmatrix_t \<Rightarrow> cmatrix_t \<Rightarrow> rvector_t \<Rightarrow> cmatrix_t \<Rightarrow> error + unit" where
  "validate_SVD_result A U S V =
     (let nrows = GetRows A; ncols = GetColumns A in
      ebind (diag S nrows ncols) (\<lambda>diag_S.
      let product = mat_mul U diag_S;
          product = mat_mul product (dagger V)
      in forM [0..<nrows] (\<lambda>ii. forM [0..<ncols] (validate_entry A product ii)) ()))"

section \<open>\<^verbatim>\<open>csvd\<close>\<close>

text \<open>
  \<^verbatim>\<open>std::norm\<close> of a complex number is the square of its modulus.  The indices of \<^verbatim>\<open>csvd\<close>
  are C++ \<^verbatim>\<open>int\<close>s; the accesses of the second phase, whose indices come from the data,
  are checked against the size of the vector or the shape of the matrix.
\<close>

datatype status = SUCCESS | FAILURE

definition norm_c :: "complex \<Rightarrow> real" where
  "norm_c z = Re z * Re z + Im z * Im z"

definition eta :: real where "eta = 1 / 10 ^ 10"
definition tol :: real where "tol = 15 / 10 ^ 35"

definition mread :: "string \<Rightarrow> cmatrix_t \<Rightarrow> int \<Rightarrow> int \<Rightarrow> error + complex" where
  "mread nm M i j =
     (if 0 \<le> i \<and> i < int (GetRows M) \<and> 0 \<le> j \<and> j < int (GetColumns M)
      then Inr (elem M (nat i) (nat j))
      else Inl (OutOfRange nm (if 0 \<le> i \<and> i < int (GetRows M) then j else i)))"

definition mwrite :: "string \<Rightarrow> cmatrix_t \<Rightarrow> int \<Rightarrow> int \<Rightarrow> complex \<Rightarrow> error + cmatrix_t" where
  "mwrite nm M i j x =
     (if 0 \<le> i \<and> i < int (GetRows M) \<and> 0 \<le> j \<and> j < int (GetColumns M)
      then Inr (mput M (nat i) (nat j) x)
      else Inl (OutOfRange nm (if 0 \<le> i \<and> i < int (GetRows M) then j else i)))"

subsection \<open>Phase 1: bidiagonalisation, lines 228-312\<close>

text \<open>Lines 248-259: the reflector of column \<open>k\<close> applied to the columns \<open>k1..<n\<close>.\<close>

definition apply_column_reflector :: "nat \<Rightarrow> nat \<Rightarrow> nat \<Rightarrow> real \<Rightarrow> real \<Rightarrow> cmatrix_t \<Rightarrow> cmatrix_t" where
  "apply_column_reflector m n k z w A =
     fold (\<lambda>j A.
        let q = (\<Sum>i\<leftarrow>[k..<m]. cnj (elem A i k) * elem A i j);
            q = q / complex_of_real (z * (z + w))
        in fold (\<lambda>i A. mput A i j (elem A i j - q * elem A i k)) [k..<m] A)
       [k + 1..<n] A"

text \<open>Lines 235-269: the step on column \<open>k\<close>, given the sum \<open>z\<close> of lines 230-233.\<close>

definition column_step :: "nat \<Rightarrow> nat \<Rightarrow> nat \<Rightarrow> real \<Rightarrow> cmatrix_t \<times> rvector_t \<Rightarrow> cmatrix_t \<times> rvector_t" where
  "column_step m n k z Ab =
     (case Ab of (A, b) \<Rightarrow>
      let b = b[k := 0] in
      if tol < z then
        (let z = sqrt z;
             b = b[k := z];
             w = cmod (elem A k k);
             q = (if almost_equal w 0 zero_threshold then Complex 1 0
                  else elem A k k / complex_of_real w);
             A = mput A k k (q * complex_of_real (z + w))
         in if int k \<noteq> int n - 1 then
              (let A = apply_column_reflector m n k z w A;
                   q = - cnj (elem A k k) / complex_of_real (cmod (elem A k k));
                   A = fold (\<lambda>j A. mput A k j (q * elem A k j)) [k + 1..<n] A
               in (A, b))
            else (A, b))
      else (A, b))"

text \<open>Lines 291-302: the reflector of row \<open>k\<close> applied to the rows \<open>k1..<m\<close>.\<close>

definition apply_row_reflector :: "nat \<Rightarrow> nat \<Rightarrow> nat \<Rightarrow> real \<Rightarrow> real \<Rightarrow> cmatrix_t \<Rightarrow> cmatrix_t" where
  "apply_row_reflector m n k z w A =
     fold (\<lambda>i A.
        let q = (\<Sum>j\<leftarrow>[k + 1..<n]. cnj (elem A k j) * elem A i j);
            q = q / complex_of_real (z * (z + w))
        in fold (\<lambda>j A. mput A i j (elem A i j - q * elem A k j)) [k + 1..<n] A)
       [k + 1..<m] A"

text \<open>Lines 277-310: the step on row \<open>k\<close>, given the sum \<open>z\<close> of lines 273-276.\<close>

definition row_step :: "nat \<Rightarrow> nat \<Rightarrow> nat \<Rightarrow> real \<Rightarrow> cmatrix_t \<times> rvector_t \<Rightarrow> cmatrix_t \<times> rvector_t" where
  "row_step m n k z Ac =
     (case Ac of (A, c) \<Rightarrow>
      let k1 = k + 1;
          c = c[k1 := 0] in
      if tol < z then
        (let z = sqrt z;
             c = c[k1 := z];
             w = cmod (elem A k k1);
             q = (if almost_equal w 0 zero_threshold then Complex 1 0
                  else elem A k k1 / complex_of_real w);
             A = mput A k k1 (q * complex_of_real (z + w));
             A = apply_row_reflector m n k z w A;
             q = - cnj (elem A k k1) / complex_of_real (cmod (elem A k k1));
             A = fold (\<lambda>i A. mput A i k1 (elem A i k1 * q)) [k1..<m] A
         in (A, c))
      else (A, c))"

text \<open>
  The loop \<^verbatim>\<open>while (true)\<close> of lines 228-312, for \<open>n \<ge> 1\<close>: \<open>k\<close> starts at 0, goes up by one and
  the loop is left at \<open>k = n - 1\<close>.
\<close>

function bidiagonalize ::
  "nat \<Rightarrow> nat \<Rightarrow> nat \<Rightarrow> cmatrix_t \<times> rvector_t \<times> rvector_t \<Rightarrow> cmatrix_t \<times> rvector_t \<times> rvector_t" where
  "bidiagonalize m n k Abc =
     (case Abc of (A, b, c) \<Rightarrow>
      let z = (\<Sum>i\<leftarrow>[k..<m]. norm_c (elem A i k));
          (A, b) = column_step m n k z (A, b)
      in if k + 1 < n then
           (let z = (\<Sum>j\<leftarrow>[k + 1..<n]. norm_c (elem A k j));
                (A, c) = row_step m n k z (A, c)
            in bidiagonalize m n (k + 1) (A, b, c))
         else (A, b, c))"
  by pat_completeness auto
termination
  by (relation "measure (\<lambda>(m, n, k, Abc). n - k)") auto

subsection \<open>Lines 314-339: \<open>S\<close>, \<open>t\<close>, \<open>eps\<close> and the identity matrices\<close>

text \<open>The body of the loop of lines 315-319 on \<open>(S, t, eps)\<close>.\<close>

definition init_step ::
  "rvector_t \<Rightarrow> rvector_t \<Rightarrow> nat \<Rightarrow> rvector_t \<times> rvector_t \<times> real \<Rightarrow> error + (rvector_t \<times> rvector_t \<times> real)" where
  "init_step b c k Ste =
     (case Ste of (S, t, eps) \<Rightarrow>
        ebind (vwrite ''S'' S (int k) (b ! k)) (\<lambda>S.
        let t = t[k := c ! k] in
        ebind (vread ''S'' S (int k)) (\<lambda>Sk.
        Inr (S, t, max eps (Sk + t ! k)))))"

definition init_S_t ::
  "nat \<Rightarrow> rvector_t \<Rightarrow> rvector_t \<Rightarrow> rvector_t \<times> rvector_t \<times> real \<Rightarrow> error + (rvector_t \<times> rvector_t \<times> real)" where
  "init_S_t n b c = forM [0..<n] (init_step b c)"

definition identity :: "nat \<Rightarrow> cmatrix_t" where
  "identity n = \<lparr>GetRows = n, GetColumns = n, elem = (\<lambda>i j. if i = j \<and> i < n then 1 else 0)\<rparr>"

subsection \<open>Phase 2: diagonalisation, lines 341-499\<close>

record qr_state =
  qS :: rvector_t
  qt :: rvector_t
  qU :: cmatrix_t
  qV :: cmatrix_t

text \<open>
  The scan of lines 344-352, from \<open>l\<close> downwards: the result is the value of \<open>l\<close> at the
  exit and the flag \<open>jump\<close>.
\<close>

function deflation_scan :: "rvector_t \<Rightarrow> rvector_t \<Rightarrow> real \<Rightarrow> int \<Rightarrow> error + (int \<times> bool)" where
  "deflation_scan S t eps l =
     (if l \<ge> 0 then
        ebind (vread ''t'' t l) (\<lambda>tl.
          if \<bar>tl\<bar> < eps then Inr (l, True)
          else ebind (vread ''S'' S (l - 1)) (\<lambda>Sl1.
            if \<bar>Sl1\<bar> < eps then Inr (l, False)
            else deflation_scan S t eps (l - 1)))
      else Inr (l, False))"
  by pat_completeness auto
termination
  by (relation "measure (\<lambda>(S, t, eps, l). nat (l + 1))") auto

text \<open>
  The rotation of two columns over the rows \<open>0..<n\<close>, as in the loops of lines 371-376,
  440-445 and 480-485: with \<open>a\<close> and \<open>b\<close> the real parts of \<open>M(j, c1)\<close> and \<open>M(j, c2)\<close>,
  \<open>M(j, c1) = a cs + b sn\<close> and \<open>M(j, c2) = b cs - a sn\<close>.
\<close>

definition rotate_columns ::
  "string \<Rightarrow> nat \<Rightarrow> int \<Rightarrow> int \<Rightarrow> real \<Rightarrow> real \<Rightarrow> cmatrix_t \<Rightarrow> error + cmatrix_t" where
  "rotate_columns nm n c1 c2 cs sn =
     forM [0..<n] (\<lambda>j M.
        ebind (mread nm M (int j) c1) (\<lambda>a.
        ebind (mread nm M (int j) c2) (\<lambda>b.
        ebind (mwrite nm M (int j) c1 (Complex (Re a * cs + Re b * sn) 0)) (\<lambda>M.
        mwrite nm M (int j) c2 (Complex (Re b * cs - Re a * sn) 0)))))"

text \<open>
  One round of the loop of lines 358-377, at index \<open>i\<close> with the current \<open>cs\<close> and \<open>sn\<close>.
  The flag returned says whether the round ended in the \<^verbatim>\<open>break\<close> of line 363.
\<close>

definition cancellation_step ::
  "nat \<Rightarrow> real \<Rightarrow> int \<Rightarrow> int \<Rightarrow> real \<Rightarrow> real \<Rightarrow> qr_state \<Rightarrow> error + (bool \<times> real \<times> real \<times> qr_state)" where
  "cancellation_step n eps l1 i cs sn st =
     ebind (vread ''t'' (qt st) i) (\<lambda>ti.
     let f = sn * ti in
     ebind (vwrite ''t'' (qt st) i (cs * ti)) (\<lambda>t.
     if \<bar>f\<bar> < eps then Inr (True, cs, sn, st\<lparr>qt := t\<rparr>)
     else
       ebind (vread ''S'' (qS st) i) (\<lambda>h.
       let w = sqrt (f * f + h * h) in
       ebind (vwrite ''S'' (qS st) i w) (\<lambda>S.
       let cs = h / w;
           sn = - f / w in
       ebind (rotate_columns ''U'' n l1 i cs sn (qU st)) (\<lambda>U.
       Inr (False, cs, sn, st\<lparr>qS := S, qt := t, qU := U\<rparr>))))))"

text \<open>The loop of lines 358-377, from \<open>i\<close> on.\<close>

function cancellation ::
  "nat \<Rightarrow> real \<Rightarrow> int \<Rightarrow> int \<Rightarrow> int \<Rightarrow> real \<Rightarrow> real \<Rightarrow> qr_state \<Rightarrow> error + qr_state" where
  "cancellation n eps k l1 i cs sn st =
     (if i \<le> k then
        (case cancellation_step n eps l1 i cs sn st of
           Inl e \<Rightarrow> Inl e
         | Inr (stop, cs, sn, st) \<Rightarrow>
             if stop then Inr st else cancellation n eps k l1 (i + 1) cs sn st)
      else Inr st)"
  by pat_completeness auto
termination
  by (relation "measure (\<lambda>(n, eps, k, l1, i, cs, sn, st). nat (k + 1 - i))") auto

text \<open>
  One round of the chase of lines 397-486, at index \<open>i\<close>.  The variables \<open>cs\<close>, \<open>sn\<close>, \<open>f\<close>
  and \<open>x\<close> go from one round to the next.  The status is \<open>FAILURE\<close> at the
  \<^verbatim>\<open>return FAILURE\<close> of line 466, with the containers as they are then.
\<close>

definition chase_step ::
  "nat \<Rightarrow> int \<Rightarrow> real \<Rightarrow> real \<Rightarrow> real \<Rightarrow> real \<Rightarrow> qr_state
     \<Rightarrow> error + (status \<times> real \<times> real \<times> real \<times> real \<times> qr_state)" where
  "chase_step n i cs sn f x st =
     ebind (vread ''t'' (qt st) i) (\<lambda>g.
     ebind (vread ''S'' (qS st) i) (\<lambda>y.
     let h = sn * g;
         g = cs * g;
         w = sqrt (h * h + f * f) in
     ebind (vwrite ''t'' (qt st) (i - 1) w) (\<lambda>t.
     let cs = f / w;
         sn = h / w;
         f = x * cs + g * sn;
         large_f = (if almost_equal f 0 zero_threshold
                    then (x * tiny_factor) * (cs * tiny_factor) + (g * tiny_factor) * (sn * tiny_factor)
                    else 0);
         g = g * cs - x * sn;
         h = y * sn;
         y = y * cs in
     ebind (rotate_columns ''V'' n (i - 1) i cs sn (qV st)) (\<lambda>V.
     let tiny_w = (\<bar>h\<bar> < 1 / 10 ^ 13 \<and> \<bar>f\<bar> < 1 / 10 ^ 13 \<and> \<not> almost_equal large_f 0 zero_threshold);
         w = sqrt (h * h + f * f) in
     if almost_equal w 0 zero_threshold \<and> \<not> tiny_w
     then Inr (FAILURE, cs, sn, f, x, st\<lparr>qt := t, qV := V\<rparr>)
     else
       ebind (vwrite ''S'' (qS st) (i - 1) w) (\<lambda>S.
       let cs = (if tiny_w then 1 else f / w);
           sn = (if tiny_w then 0 else h / w);
           f = cs * g + sn * y;
           x = cs * y - sn * g in
       ebind (rotate_columns ''U'' n (i - 1) i cs sn (qU st)) (\<lambda>U.
       Inr (SUCCESS, cs, sn, f, x, st\<lparr>qS := S, qt := t, qU := U, qV := V\<rparr>)))))))"

text \<open>
  The chase of lines 397-486, from \<open>i\<close> on; the result is the status, \<open>f\<close> and \<open>x\<close> and the
  containers at its end.
\<close>

function chase ::
  "nat \<Rightarrow> int \<Rightarrow> int \<Rightarrow> real \<Rightarrow> real \<Rightarrow> real \<Rightarrow> real \<Rightarrow> qr_state
     \<Rightarrow> error + (status \<times> real \<times> real \<times> qr_state)" where
  "chase n k i cs sn f x st =
     (if i \<le> k then
        (case chase_step n i cs sn f x st of
           Inl e \<Rightarrow> Inl e
         | Inr (status, cs, sn, f, x, st) \<Rightarrow>
             if status = FAILURE then Inr (FAILURE, f, x, st)
             else chase n k (i + 1) cs sn f x st)
      else Inr (SUCCESS, f, x, st))"
  by pat_completeness auto
termination
  by (relation "measure (\<lambda>(n, k, i, cs, sn, f, x, st). nat (k + 1 - i))") auto

text \<open>
  One round of the loop \<^verbatim>\<open>while (true)\<close> of lines 342-490.  The round either leaves the loop,
  by the \<^verbatim>\<open>break\<close> of line 381 (status \<open>SUCCESS\<close>) or the \<^verbatim>\<open>return FAILURE\<close> of line 466,
  with the value of \<open>w\<close> set at line 379, or it ends at line 489 and the loop goes on.
\<close>

definition qr_round :: "nat \<Rightarrow> real \<Rightarrow> int \<Rightarrow> qr_state \<Rightarrow> error + ((status \<times> real) option \<times> qr_state)" where
  "qr_round n eps k st =
     ebind (deflation_scan (qS st) (qt st) eps k) (\<lambda>(l, jump).
     ebind (if \<not> jump then cancellation n eps k (l - 1) l 0 1 st else Inr st) (\<lambda>st.
     ebind (vread ''S'' (qS st) k) (\<lambda>w.
     if l = k then Inr (Some (SUCCESS, w), st)
     else
       ebind (vread ''S'' (qS st) l) (\<lambda>x.
       ebind (vread ''S'' (qS st) (k - 1)) (\<lambda>y.
       ebind (vread ''t'' (qt st) (k - 1)) (\<lambda>g.
       ebind (vread ''t'' (qt st) k) (\<lambda>h.
       let f = ((y - w) * (y + w) + (g - h) * (g + h)) / (2 * h * y);
           g = sqrt (f * f + 1);
           g = (if f < - 1 / 10 ^ 13 then - g else g);
           f = ((x - w) * (x + w) + (y / (f + g) - h) * h) / x in
       ebind (chase n k (l + 1) 1 1 f x st) (\<lambda>(status, f, x, st).
       if status = FAILURE then Inr (Some (FAILURE, w), st)
       else
         ebind (vwrite ''t'' (qt st) l 0) (\<lambda>t.
         ebind (vwrite ''t'' t k f) (\<lambda>t.
         ebind (vwrite ''S'' (qS st) k x) (\<lambda>S.
         Inr (None, st\<lparr>qS := S, qt := t\<rparr>))))))))))))"

text \<open>
  The loop itself.  It has no bound in the source; the model counts the rounds down from
  \<open>fuel\<close> and gives \<open>OutOfFuel\<close> when none is left.  The result is the status, the value of
  \<open>w\<close> at the exit and the containers.
\<close>

fun qr_rounds :: "nat \<Rightarrow> nat \<Rightarrow> real \<Rightarrow> int \<Rightarrow> qr_state \<Rightarrow> error + (status \<times> real \<times> qr_state)" where
  "qr_rounds 0 n eps k st = Inl OutOfFuel"
| "qr_rounds (Suc fuel) n eps k st =
     (case qr_round n eps k st of
        Inl e \<Rightarrow> Inl e
      | Inr (Some (status, w), st) \<Rightarrow> Inr (status, w, st)
      | Inr (None, st) \<Rightarrow> qr_rounds fuel n eps k st)"

text \<open>Line 496, \<^verbatim>\<open>V(j, k) = -V(j, k)\<close>, and lines 492-498: the sign of \<open>S[k]\<close> and of column \<open>k\<close> of \<open>V\<close>.\<close>

definition negate_entry :: "int \<Rightarrow> nat \<Rightarrow> cmatrix_t \<Rightarrow> error + cmatrix_t" where
  "negate_entry k j V = ebind (mread ''V'' V (int j) k) (\<lambda>v. mwrite ''V'' V (int j) k (- v))"

definition sign_sweep :: "nat \<Rightarrow> int \<Rightarrow> real \<Rightarrow> qr_state \<Rightarrow> error + qr_state" where
  "sign_sweep n k w st =
     (if w < - 1 / 10 ^ 13 then
        ebind (vwrite ''S'' (qS st) k (- w)) (\<lambda>S.
        ebind (forM [0..<n] (negate_entry k) (qV st)) (\<lambda>V.
        Inr (st\<lparr>qS := S, qV := V\<rparr>)))
      else Inr st)"

text \<open>
  The loop of lines 341-499 over \<open>k = n - 1, \<dots>, 0\<close>, here over the list of the values of
  \<open>k\<close> still to do.
\<close>

fun diagonalize :: "nat \<Rightarrow> nat \<Rightarrow> real \<Rightarrow> nat list \<Rightarrow> qr_state \<Rightarrow> error + (status \<times> qr_state)" where
  "diagonalize fuel n eps [] st = Inr (SUCCESS, st)"
| "diagonalize fuel n eps (k # ks) st =
     ebind (qr_rounds fuel n eps (int k) st) (\<lambda>(status, w, st).
     if status = FAILURE then Inr (FAILURE, st)
     else ebind (sign_sweep n (int k) w st) (\<lambda>st. diagonalize fuel n eps ks st))"

subsection \<open>The sort of lines 504-530\<close>

text \<open>Lines 505-512: the greatest of \<open>S[k], \<dots>, S[n-1]\<close> above \<open>-1\<close> and its index, \<open>(g, j)\<close>.\<close>

definition select_step :: "rvector_t \<Rightarrow> nat \<Rightarrow> real \<times> nat \<Rightarrow> error + (real \<times> nat)" where
  "select_step S i gj =
     (case gj of (g, j) \<Rightarrow>
        ebind (vread ''S'' S (int i)) (\<lambda>Si. if g < Si then Inr (Si, i) else Inr (g, j)))"

definition select_greatest :: "rvector_t \<Rightarrow> nat \<Rightarrow> nat \<Rightarrow> error + (real \<times> nat)" where
  "select_greatest S k n = forM [k..<n] (select_step S) (- 1, k)"

text \<open>Lines 518-528: the columns \<open>j\<close> and \<open>k\<close> exchanged over the rows \<open>0..<n\<close>.\<close>

definition swap_entries :: "string \<Rightarrow> nat \<Rightarrow> nat \<Rightarrow> nat \<Rightarrow> cmatrix_t \<Rightarrow> error + cmatrix_t" where
  "swap_entries nm j k i M =
     ebind (mread nm M (int i) (int j)) (\<lambda>q.
     ebind (mread nm M (int i) (int k)) (\<lambda>Mik.
     ebind (mwrite nm M (int i) (int j) Mik) (\<lambda>M.
     mwrite nm M (int i) (int k) q)))"

definition swap_columns :: "string \<Rightarrow> nat \<Rightarrow> nat \<Rightarrow> nat \<Rightarrow> cmatrix_t \<Rightarrow> error + cmatrix_t" where
  "swap_columns nm n j k = forM [0..<n] (swap_entries nm j k)"

definition sort_step :: "nat \<Rightarrow> nat \<Rightarrow> qr_state \<Rightarrow> error + qr_state" where
  "sort_step n k st =
     ebind (select_greatest (qS st) k n) (\<lambda>(g, j).
     if j \<noteq> k then
       ebind (vread ''S'' (qS st) (int k)) (\<lambda>Sk.
       ebind (vwrite ''S'' (qS st) (int j) Sk) (\<lambda>S.
       ebind (vwrite ''S'' S (int k) g) (\<lambda>S.
       ebind (swap_columns ''V'' n j k (qV st)) (\<lambda>V.
       ebind (swap_columns ''U'' n j k (qU st)) (\<lambda>U.
       Inr (st\<lparr>qS := S, qU := U, qV := V\<rparr>))))))
     else Inr st)"

definition sort_singular_values :: "nat \<Rightarrow> qr_state \<Rightarrow> error + qr_state" where
  "sort_singular_values n = forM [0..<n] (sort_step n)"

subsection \<open>Back-accumulation, lines 532-571\<close>

definition accumulate_U :: "nat \<Rightarrow> nat \<Rightarrow> cmatrix_t \<Rightarrow> rvector_t \<Rightarrow> cmatrix_t \<Rightarrow> cmatrix_t" where
  "accumulate_U m n A b =
     fold (\<lambda>k U.
        if \<not> almost_equal (b ! k) 0 zero_threshold then
          (let q = - elem A k k / complex_of_real (cmod (elem A k k));
               U = fold (\<lambda>j U. mput U k j (q * elem U k j)) [0..<m] U
           in fold (\<lambda>j U.
                 let q = (\<Sum>i\<leftarrow>[k..<m]. cnj (elem A i k) * elem U i j);
                     q = q / complex_of_real (cmod (elem A k k) * b ! k)
                 in fold (\<lambda>i U. mput U i j (elem U i j - q * elem A i k)) [k..<m] U)
                [0..<m] U)
        else U)
       (rev [0..<n])"

definition accumulate_V :: "nat \<Rightarrow> cmatrix_t \<Rightarrow> rvector_t \<Rightarrow> cmatrix_t \<Rightarrow> cmatrix_t" where
  "accumulate_V n A c =
     fold (\<lambda>k V.
        let k1 = k + 1 in
        if \<not> almost_equal (c ! k1) 0 zero_threshold then
          (let q = - cnj (elem A k k1) / complex_of_real (cmod (elem A k k1));
               V = fold (\<lambda>j V. mput V k1 j (q * elem V k1 j)) [0..<n] V
           in fold (\<lambda>j V.
                 let q = (\<Sum>i\<leftarrow>[k1..<n]. elem A k i * elem V i j);
                     q = q / complex_of_real (cmod (elem A k k1) * c ! k1)
                 in fold (\<lambda>i V. mput V i j (elem V i j - q * cnj (elem A k i))) [k1..<n] V)
                [0..<n] V)
        else V)
       (rev [0..<n - 1])"

subsection \<open>The function \<^verbatim>\<open>csvd\<close>, lines 209-581\<close>

text \<open>
  \<open>A\<close>, \<open>U\<close>, \<open>S\<close> and \<open>V\<close> are references: the result is the status and their values at the
  return.  \<open>S\<close> is never resized.  With no column after the transposition of line 223,
  line 227 (for an empty matrix) or line 232 indexes an empty container.
\<close>

definition csvd ::
  "nat \<Rightarrow> cmatrix_t \<Rightarrow> cmatrix_t \<Rightarrow> rvector_t \<Rightarrow> cmatrix_t
     \<Rightarrow> error + (status \<times> cmatrix_t \<times> cmatrix_t \<times> rvector_t \<times> cmatrix_t)" where
  "csvd fuel A U S V =
     (let m = GetRows A;
          n = GetColumns A;
          size = max m n;
          b = replicate size 0;
          c = replicate size 0;
          t = replicate size 0;
          transposed = (m < n);
          A = (if m < n then dagger A else A);
          (m, n) = (if transposed then (n, m) else (m, n))
      in
      if n = 0 then Inl (OutOfRange (if m = 0 then ''c'' else ''A'') 0)
      else
        (let c = c[0 := 0];
             (A, b, c) = bidiagonalize m n 0 (A, b, c)
         in
         ebind (init_S_t n b c (S, t, 0)) (\<lambda>(S, t, eps).
         let eps = eps * eta;
             U = identity m;
             V = identity n
         in
         ebind (diagonalize fuel n eps (rev [0..<n]) \<lparr>qS = S, qt = t, qU = U, qV = V\<rparr>) (\<lambda>(status, st).
         if status = FAILURE then Inr (FAILURE, A, qU st, qS st, qV st)
         else
           ebind (sort_singular_values n st) (\<lambda>st.
           let U = accumulate_U m n A b (qU st);
               V = accumulate_V n A c (qV st)
           in if transposed then Inr (SUCCESS, A, V, qS st, U)
              else Inr (SUCCESS, A, U, qS st, V))))))"

section \<open>\<^verbatim>\<open>qiskit_csvd_wrapper\<close>\<close>

text \<open>
  The arguments \<open>A\<close>, \<open>U\<close>, \<open>S\<close>, \<open>V\<close> of \<^verbatim>\<open>csvd\<close> are references: a call returns its status
  and their values after the call.
\<close>

type_synonym svd_args = "cmatrix_t \<times> cmatrix_t \<times> rvector_t \<times> cmatrix_t"

type_synonym kernel = "cmatrix_t \<Rightarrow> cmatrix_t \<Rightarrow> rvector_t \<Rightarrow> cmatrix_t \<Rightarrow> error + (status \<times> svd_args)"

text \<open>\<^verbatim>\<open>copied_A * mul_factor\<close>: every entry multiplied by the factor.\<close>

definition scale :: "cmatrix_t \<Rightarrow> real \<Rightarrow> cmatrix_t" where
  "scale M c = M\<lparr>elem := (\<lambda>i j. elem M i j * complex_of_real c)\<rparr>"

text \<open>
  The loop of lines 618-628.  The state is \<open>times\<close> (here \<open>ntimes\<close>), \<open>current_status\<close>, \<open>copied_A\<close> and the
  four references; the result is the state at the exit of the loop.
\<close>

function retry_loop ::
  "kernel \<Rightarrow> int \<Rightarrow> status \<Rightarrow> cmatrix_t \<Rightarrow> svd_args \<Rightarrow> error + (int \<times> status \<times> svd_args)" where
  "retry_loop kern ntimes current_status copied_A args =
     (if ntimes \<le> NUM_SVD_TRIES \<and> current_status = FAILURE then
        (case args of (A, U, S, V) \<Rightarrow>
           (case kern (scale copied_A mul_factor) U S V of
              Inl e \<Rightarrow> Inl e
            | Inr (st, args') \<Rightarrow> retry_loop kern (ntimes + 1) st (scale copied_A mul_factor) args'))
      else Inr (ntimes, current_status, args))"
  by pat_completeness auto
termination
  by (relation "measure (\<lambda>(kern, ntimes, st, cA, args). nat (NUM_SVD_TRIES + 1 - ntimes))") auto

definition qiskit_csvd_wrapper_with ::
  "kernel \<Rightarrow> cmatrix_t \<Rightarrow> cmatrix_t \<Rightarrow> rvector_t \<Rightarrow> cmatrix_t \<Rightarrow> error + svd_args" where
  "qiskit_csvd_wrapper_with kern A U S V =
     (let copied_A = A in
      ebind (kern A U S V) (\<lambda>(current_status, args).
        if current_status = SUCCESS then Inr args
        else ebind (retry_loop kern 0 current_status copied_A args) (\<lambda>(ntimes, current_status, A', U', S', V').
          if ntimes = NUM_SVD_TRIES then Inl (RuntimeError ''SVD failed'')
          else Inr (A', U', map (\<lambda>s. s / mul_factor ^ nat ntimes) S', V'))))"

text \<open>The wrapper of lines 606-638 on the kernel \<^const>\<open>csvd\<close>.\<close>

definition qiskit_csvd_wrapper ::
  "nat \<Rightarrow> cmatrix_t \<Rightarrow> cmatrix_t \<Rightarrow> rvector_t \<Rightarrow> cmatrix_t \<Rightarrow> error + svd_args" where
  "qiskit_csvd_wrapper fuel = qiskit_csvd_wrapper_with (csvd fuel)"

section \<open>Auxiliary notions for the proofs\<close>

text \<open>The matrix \<open>Res\<close> after the inner loop of \<^const>\<open>diag\<close> has filled columns \<open>0..<k\<close> of row \<open>i\<close>.\<close>

definition diag_row_done :: "rvector_t \<Rightarrow> nat \<Rightarrow> nat \<Rightarrow> cmatrix_t \<Rightarrow> cmatrix_t" where
  "diag_row_done S i k Res =
     Res\<lparr>elem := (\<lambda>a b. if a = i \<and> b < k then (if i = b then complex_of_real (S ! i) else 0)
                        else elem Res a b)\<rparr>"

text \<open>The matrix after the outer loop has filled rows \<open>0..<r\<close>.\<close>

definition diag_rows_done :: "rvector_t \<Rightarrow> nat \<Rightarrow> nat \<Rightarrow> cmatrix_t \<Rightarrow> cmatrix_t" where
  "diag_rows_done S r n Res =
     Res\<lparr>elem := (\<lambda>a b. if a < r \<and> b < n then (if a = b then complex_of_real (S ! a) else 0)
                        else elem Res a b)\<rparr>"

text \<open>
  The sum of the squares of \<open>S\<^sub>r, \<dots>, S\<^sub>n\<^sub>1\<^sub>-\<^sub>1\<close>: what is dropped when rank \<open>r\<close> is kept out of the
  \<open>n1\<close> values that the sweep starts from.
\<close>

definition dropped_mass :: "rvector_t \<Rightarrow> nat \<Rightarrow> nat \<Rightarrow> real" where
  "dropped_mass S n1 r = (\<Sum>j = r..<n1. norm_d (S ! j))"

text \<open>The matrix \<open>P = U \<cdot> diag(S) \<cdot> V\<^sup>\<dagger>\<close> that \<^const>\<open>validate_SVD_result\<close> compares \<open>A\<close> with.\<close>

definition svd_product :: "cmatrix_t \<Rightarrow> cmatrix_t \<Rightarrow> rvector_t \<Rightarrow> cmatrix_t \<Rightarrow> cmatrix_t" where
  "svd_product A U S V =
     mat_mul (mat_mul U \<lparr>GetRows = GetRows A, GetColumns = GetColumns A,
                elem = (\<lambda>i j. if i < GetRows A \<and> j < GetColumns A \<and> i = j
                               then complex_of_real (S ! i) else 0)\<rparr>) (dagger V)"

text \<open>
  The matrix of the \<open>j\<close>-th retry, \<open>A \<cdot> mul_factor\<^sup>j\<close> built by \<open>j\<close> successive scalings, and what
  it means for the kernel to fail or to succeed on it: whatever \<open>U\<close> and \<open>V\<close> hold at the call
  and whatever vector \<open>S\<close> of \<open>n\<close> entries, the call returns with that status, and, when it
  fails, with a vector \<open>S\<close> of \<open>n\<close> entries again (the next call receives it).
\<close>

definition rescaled :: "cmatrix_t \<Rightarrow> nat \<Rightarrow> cmatrix_t" where
  "rescaled A j = ((\<lambda>M. scale M mul_factor) ^^ j) A"

definition fails_at :: "kernel \<Rightarrow> nat \<Rightarrow> cmatrix_t \<Rightarrow> nat \<Rightarrow> bool" where
  "fails_at kern n A j \<longleftrightarrow>
     (\<forall>U S V. length S = n \<longrightarrow>
        (\<exists>A' U' S' V'. kern (rescaled A j) U S V = Inr (FAILURE, A', U', S', V') \<and> length S' = n))"

definition succeeds_at :: "kernel \<Rightarrow> nat \<Rightarrow> cmatrix_t \<Rightarrow> nat \<Rightarrow> bool" where
  "succeeds_at kern n A j \<longleftrightarrow>
     (\<forall>U S V. length S = n \<longrightarrow> (\<exists>args. kern (rescaled A j) U S V = Inr (SUCCESS, args)))"

text \<open>
  The \<open>2 \<times> 2\<close> matrix with the rows \<open>(s, 2s)\<close> and \<open>(0, e)\<close>, and what the first phase of
  \<^const>\<open>csvd\<close> makes of it: after the step on column 0, after the step on row 0, and after
  the step on column 1 when \<open>e\<^sup>2\<close> is above \<^const>\<open>tol\<close>.
\<close>

definition cancelling_matrix :: "real \<Rightarrow> real \<Rightarrow> cmatrix_t" where
  "cancelling_matrix s e = \<lparr>GetRows = 2, GetColumns = 2,
      elem = (\<lambda>i j. if i = 0 \<and> j = 0 then complex_of_real s
                     else if i = 0 \<and> j = 1 then complex_of_real (2 * s)
                     else if i = 1 \<and> j = 1 then complex_of_real e else 0)\<rparr>"

definition cancelling_matrix_col :: "real \<Rightarrow> real \<Rightarrow> cmatrix_t" where
  "cancelling_matrix_col s e = \<lparr>GetRows = 2, GetColumns = 2,
      elem = (\<lambda>i j. if i = 0 \<and> j = 0 then complex_of_real (2 * s)
                     else if i = 0 \<and> j = 1 then complex_of_real (2 * s)
                     else if i = 1 \<and> j = 1 then complex_of_real e else 0)\<rparr>"

definition cancelling_matrix_row :: "real \<Rightarrow> real \<Rightarrow> cmatrix_t" where
  "cancelling_matrix_row s e = \<lparr>GetRows = 2, GetColumns = 2,
      elem = (\<lambda>i j. if i = 0 \<and> j = 0 then complex_of_real (2 * s)
                     else if i = 0 \<and> j = 1 then complex_of_real (4 * s)
                     else if i = 1 \<and> j = 1 then complex_of_real e else 0)\<rparr>"

text \<open>
  The vector \<open>S'\<close> has the length of \<open>S\<close> and the entries of \<open>S\<close> at every index above \<open>k\<close>.
\<close>

definition kept_above :: "int \<Rightarrow> rvector_t \<Rightarrow> rvector_t \<Rightarrow> bool" where
  "kept_above k S S' \<longleftrightarrow> length S' = length S \<and> (\<forall>j. k < int j \<longrightarrow> S' ! j = S ! j)"

text \<open>
  The matrix \<open>M'\<close> is \<open>M\<close> with the columns \<open>j\<close> and \<open>k\<close> exchanged over the rows \<open>0..<n\<close>, and
  with column \<open>k\<close> negated over these rows.
\<close>

definition columns_swapped :: "nat \<Rightarrow> nat \<Rightarrow> nat \<Rightarrow> cmatrix_t \<Rightarrow> cmatrix_t \<Rightarrow> bool" where
  "columns_swapped n j k M M' \<longleftrightarrow>
     (\<forall>r c. elem M' r c = (if r < n \<and> c = k then elem M r j
                           else if r < n \<and> c = j then elem M r k else elem M r c))"

definition column_negated :: "nat \<Rightarrow> int \<Rightarrow> cmatrix_t \<Rightarrow> cmatrix_t \<Rightarrow> bool" where
  "column_negated n k M M' \<longleftrightarrow>
     (\<forall>r c. elem M' r c = (if r < n \<and> int c = k then - elem M r c else elem M r c))"

section \<open>Basic facts\<close>

lemma ebind_Inr [simp]: "ebind (Inr x) f = f x" by (simp add: ebind_def)
lemma ebind_Inl [simp]: "ebind (Inl e) f = Inl e" by (simp add: ebind_def)

lemma forM_append: "forM (xs @ ys) body s = ebind (forM xs body s) (forM ys body)"
  by (induction xs arbitrary: s) (auto simp: ebind_def split: sum.splits)

lemma forM_snoc: "forM (xs @ [x]) body s = ebind (forM xs body s) (body x)"
  by (simp add: forM_append ebind_def split: sum.splits)

lemma forM_upt_Suc: "a \<le> b \<Longrightarrow> forM [a..<Suc b] body s = ebind (forM [a..<b] body s) (body b)"
  by (simp add: forM_snoc)

lemma forM_invariant:
  assumes "forM xs body s = Inr s'" and "P s"
    and "\<And>i s s'. i \<in> set xs \<Longrightarrow> P s \<Longrightarrow> body i s = Inr s' \<Longrightarrow> P s'"
  shows "P s'"
  using assms
proof (induction xs arbitrary: s)
  case Nil then show ?case by simp
next
  case (Cons a xs)
  from Cons.prems(1) obtain s1 where s1: "body a s = Inr s1" "forM xs body s1 = Inr s'"
    by (auto split: sum.splits)
  have "P s1" using Cons.prems(3)[of a s s1] Cons.prems(2) s1(1) by simp
  then show ?case using Cons.IH[OF s1(2)] Cons.prems(3) by auto
qed

lemma vread_in [simp]: "i < length v \<Longrightarrow> vread nm v (int i) = Inr (v ! i)"
  by (simp add: vread_def)

lemma vread_out [simp]: "length v \<le> i \<Longrightarrow> vread nm v (int i) = Inl (OutOfRange nm (int i))"
  by (simp add: vread_def)

lemma diag_inner:
  assumes "i < k \<longrightarrow> i < length S"
  shows "forM [0..<k] (diag_cell S i) Res = Inr (diag_row_done S i k Res)"
  using assms
proof (induction k)
  case 0
  show ?case by (simp add: diag_row_done_def)
next
  case (Suc k)
  have eq: "mput (diag_row_done S i k Res) i k (if i = k then complex_of_real (S ! i) else 0)
        = diag_row_done S i (Suc k) Res"
    by (auto simp: mput_def diag_row_done_def fun_eq_iff less_Suc_eq)
  have IH: "forM [0..<k] (diag_cell S i) Res = Inr (diag_row_done S i k Res)"
    using Suc by simp
  have "diag_cell S i k (diag_row_done S i k Res) = Inr (diag_row_done S i (Suc k) Res)"
    using Suc.prems eq by (cases "i = k") (simp_all add: diag_cell_def)
  then show ?case using IH by (simp add: forM_snoc)
qed

lemma upt_split3: "i < k \<Longrightarrow> [0..<k] = [0..<i] @ i # [Suc i..<k]"
  by (metis less_imp_le_nat upt_add_eq_append upt_conv_Cons le_add_diff_inverse plus_nat.add_0 zero_le)

lemma diag_inner_fail:
  assumes "i < k" "length S \<le> i"
  shows "forM [0..<k] (diag_cell S i) Res = Inl (OutOfRange ''S'' (int i))"
proof -
  have "forM [0..<i] (diag_cell S i) Res = Inr (diag_row_done S i i Res)"
    by (rule diag_inner) simp
  moreover have "diag_cell S i i R = Inl (OutOfRange ''S'' (int i))" for R
    using assms(2) by (simp add: diag_cell_def)
  ultimately show ?thesis using upt_split3[OF assms(1)] by (simp add: forM_append)
qed

lemma diag_outer:
  assumes "min r n \<le> length S"
  shows "forM [0..<r] (\<lambda>i. forM [0..<n] (diag_cell S i)) Res = Inr (diag_rows_done S r n Res)"
  using assms
proof (induction r)
  case 0
  show ?case by (simp add: diag_rows_done_def)
next
  case (Suc r)
  have IH: "forM [0..<r] (\<lambda>i. forM [0..<n] (diag_cell S i)) Res = Inr (diag_rows_done S r n Res)"
    using Suc by simp
  have "forM [0..<n] (diag_cell S r) (diag_rows_done S r n Res)
      = Inr (diag_row_done S r n (diag_rows_done S r n Res))"
    using Suc.prems by (intro diag_inner) arith
  moreover have "diag_row_done S r n (diag_rows_done S r n Res) = diag_rows_done S (Suc r) n Res"
    by (auto simp: diag_row_done_def diag_rows_done_def fun_eq_iff less_Suc_eq)
  ultimately show ?case using IH by (simp add: forM_snoc)
qed

lemma diag_outer_fail:
  assumes "length S < min r n"
  shows "forM [0..<r] (\<lambda>i. forM [0..<n] (diag_cell S i)) Res = Inl (OutOfRange ''S'' (int (length S)))"
proof -
  let ?l = "length S"
  have l: "?l < r" "?l < n" using assms by simp_all
  have "forM [0..<?l] (\<lambda>i. forM [0..<n] (diag_cell S i)) Res = Inr (diag_rows_done S ?l n Res)"
    by (rule diag_outer) simp
  moreover have "forM [0..<n] (diag_cell S ?l) R = Inl (OutOfRange ''S'' (int ?l))" for R
    using l(2) by (intro diag_inner_fail) simp_all
  ultimately show ?thesis using upt_split3[OF l(1)] by (simp add: forM_append)
qed

lemma diag_result:
  "diag S m n =
     (if min m n \<le> length S
      then Inr \<lparr>GetRows = m, GetColumns = n,
                elem = (\<lambda>i j. if i < m \<and> j < n \<and> i = j then complex_of_real (S ! i) else 0)\<rparr>
      else Inl (OutOfRange ''S'' (int (length S))))"
proof (cases "min m n \<le> length S")
  case True
  have "diag_rows_done S m n (cmatrix m n) = \<lparr>GetRows = m, GetColumns = n,
                elem = (\<lambda>i j. if i < m \<and> j < n \<and> i = j then complex_of_real (S ! i) else 0)\<rparr>"
    by (auto simp: diag_rows_done_def cmatrix_def fun_eq_iff)
  then show ?thesis using True diag_outer[OF True, of "cmatrix m n"] by (simp add: diag_def)
next
  case False
  then have "length S < min m n" by arith
  from diag_outer_fail[OF this, of "cmatrix m n"] False show ?thesis by (simp add: diag_def)
qed

text \<open>
  Claim C9, as the code has it.  \<open>diag S m n\<close> reads \<open>S[i]\<close> for every \<open>i < min m n\<close>, with
  no test against the length of \<open>S\<close>.  When \<open>S\<close> has at least \<open>min m n\<close> entries the result
  is the \<open>m \<times> n\<close> matrix with \<open>S\<^sub>i\<close> at \<open>(i, i)\<close> and zero elsewhere; when \<open>S\<close> is shorter the
  first diagonal position past its end is read out of range, and no zero is stored there.
\<close>

theorem diag_entries:
  "diag S m n =
     (if min m n \<le> length S
      then Inr \<lparr>GetRows = m, GetColumns = n,
                elem = (\<lambda>i j. if i < m \<and> j < n \<and> i = j then complex_of_real (S ! i) else 0)\<rparr>
      else Inl (OutOfRange ''S'' (int (length S))))"
  by (rule diag_result)

theorem diag_entries_witness:
  "diag [2, 3] 2 3 = Inr \<lparr>GetRows = 2, GetColumns = 3,
       elem = (\<lambda>i j. if i < 2 \<and> j < 3 \<and> i = j then complex_of_real ([2, 3] ! i) else 0)\<rparr>"
  using diag_entries[of "[2, 3]" 2 3] by simp

text \<open>
  Claim C9 as stated asks for zero at the diagonal positions \<open>i \<ge> |S|\<close>.  On the empty
  vector and a \<open>1 \<times> 1\<close> shape the code reads \<open>S[0]\<close> instead.
\<close>

theorem diag_short_vector_counterexample:
  "diag [] 1 1 = Inl (OutOfRange ''S'' 0) \<and> diag [] 1 1 \<noteq> Inr (cmatrix 1 1)"
  by (simp add: diag_def diag_cell_def vread_def)


section \<open>The truncation sweep of \<^verbatim>\<open>reduce_zeros\<close>\<close>

lemma norm_d_nonneg [simp]: "0 \<le> norm_d x"
  by (simp add: norm_d_def)

lemma dropped_mass_Suc: "k < n1 \<Longrightarrow> dropped_mass S n1 k = dropped_mass S n1 (Suc k) + norm_d (S ! k)"
  by (simp add: dropped_mass_def sum.atLeast_Suc_lessThan)

lemma dropped_mass_antimono: "r \<le> r' \<Longrightarrow> dropped_mass S n1 r' \<le> dropped_mass S n1 r"
  unfolding dropped_mass_def
  by (rule sum_mono2) auto

lemma dropped_mass_end [simp]: "dropped_mass S n1 n1 = 0"
  by (simp add: dropped_mass_def)

text \<open>The sweep started at \<open>i = k - 1\<close> with the mass of the indices \<open>k..<n1\<close> collected.\<close>

lemma budget_sweep_result:
  assumes "k \<le> n1" "n1 \<le> length S" "ss = dropped_mass S n1 k"
  shows "\<exists>r. budget_sweep S th (int k - 1) n ss = Inr r \<and>
           ((r = n \<and> (\<forall>j. 1 \<le> j \<and> j < k \<longrightarrow> dropped_mass S n1 j < th)) \<or>
            (2 \<le> r \<and> r \<le> k \<and> th \<le> dropped_mass S n1 (r - 1) \<and>
             (\<forall>j. r \<le> j \<and> j < k \<longrightarrow> dropped_mass S n1 j < th)))"
  using assms
proof (induction k arbitrary: ss)
  case 0
  then show ?case by simp
next
  case (Suc k)
  show ?case
  proof (cases "k = 0")
    case True
    then show ?thesis by simp
  next
    case False
    then have kpos: "int k > 0" by simp
    have kin: "k < length S" "k < n1" using Suc.prems by simp_all
    have rd: "vread ''S'' S (int k) = Inr (S ! k)" using kin by (simp add: vread_def)
    have mass: "ss + norm_d (S ! k) = dropped_mass S n1 k"
      using Suc.prems(3) dropped_mass_Suc[OF kin(2)] by simp
    show ?thesis
    proof (cases "ss + norm_d (S ! k) < th")
      case True
      have step: "budget_sweep S th (int (Suc k) - 1) n ss
            = budget_sweep S th (int k - 1) n (ss + norm_d (S ! k))"
        using kpos rd True by (simp add: ebind_def)
      from Suc.IH[of "ss + norm_d (S ! k)"] Suc.prems mass
      obtain r where r: "budget_sweep S th (int k - 1) n (ss + norm_d (S ! k)) = Inr r"
        "(r = n \<and> (\<forall>j. 1 \<le> j \<and> j < k \<longrightarrow> dropped_mass S n1 j < th)) \<or>
            (2 \<le> r \<and> r \<le> k \<and> th \<le> dropped_mass S n1 (r - 1) \<and>
             (\<forall>j. r \<le> j \<and> j < k \<longrightarrow> dropped_mass S n1 j < th))"
        by auto
      have "j < Suc k \<Longrightarrow> j < k \<or> j = k" for j by auto
      with r(2) True mass have
        "(r = n \<and> (\<forall>j. 1 \<le> j \<and> j < Suc k \<longrightarrow> dropped_mass S n1 j < th)) \<or>
            (2 \<le> r \<and> r \<le> Suc k \<and> th \<le> dropped_mass S n1 (r - 1) \<and>
             (\<forall>j. r \<le> j \<and> j < Suc k \<longrightarrow> dropped_mass S n1 j < th))"
        by (metis le_Suc_eq less_Suc_eq)
      then show ?thesis using step r(1) by simp
    next
      case F: False
      have step: "budget_sweep S th (int (Suc k) - 1) n ss = Inr (Suc k)"
        using kpos rd F by (simp add: ebind_def nat_add_distrib)
      have "2 \<le> Suc k" using False by simp
      moreover have "th \<le> dropped_mass S n1 (Suc k - 1)" using F mass by simp
      ultimately show ?thesis using step by auto
    qed
  qed
qed

lemma num_of_SV_le: "num_of_SV S chop \<le> length S"
  by (simp add: num_of_SV_def)

lemma dropped_mass_nonneg: "0 \<le> dropped_mass S n1 r"
  unfolding dropped_mass_def by (rule sum_nonneg) simp

lemma truncated_rank_cases:
  assumes n1: "n1 = min (num_of_SV S chop) max_rank"
  shows "\<exists>r. truncated_rank chop S max_rank budget = Inr r \<and>
           (if \<forall>i. 1 \<le> i \<and> i < n1 \<longrightarrow> dropped_mass S n1 i < budget
            then r = n1
            else 2 \<le> r \<and> r \<le> n1 \<and> budget \<le> dropped_mass S n1 (r - 1) \<and>
                 (\<forall>j. r \<le> j \<and> j < n1 \<longrightarrow> dropped_mass S n1 j < budget))"
proof -
  have le: "n1 \<le> length S" using n1 num_of_SV_le[of S chop] by simp
  have tr: "truncated_rank chop S max_rank budget = budget_sweep S budget (int n1 - 1) n1 0"
    using n1 by (simp add: truncated_rank_def Let_def min_def)
  from budget_sweep_result[of n1 n1 S 0 budget n1] le
  obtain r where r: "budget_sweep S budget (int n1 - 1) n1 0 = Inr r"
    and cases: "(r = n1 \<and> (\<forall>j. 1 \<le> j \<and> j < n1 \<longrightarrow> dropped_mass S n1 j < budget)) \<or>
            (2 \<le> r \<and> r \<le> n1 \<and> budget \<le> dropped_mass S n1 (r - 1) \<and>
             (\<forall>j. r \<le> j \<and> j < n1 \<longrightarrow> dropped_mass S n1 j < budget))"
    by auto
  have eq: "truncated_rank chop S max_rank budget = Inr r" by (simp only: tr r)
  define C where "C \<longleftrightarrow> (\<forall>i. 1 \<le> i \<and> i < n1 \<longrightarrow> dropped_mass S n1 i < budget)"
  have "if C then r = n1
        else 2 \<le> r \<and> r \<le> n1 \<and> budget \<le> dropped_mass S n1 (r - 1) \<and>
             (\<forall>j. r \<le> j \<and> j < n1 \<longrightarrow> dropped_mass S n1 j < budget)"
  proof (cases C)
    case True
    have "r = n1"
    proof (rule ccontr)
      assume ne: "r \<noteq> n1"
      with cases have st: "2 \<le> r" "r \<le> n1" "budget \<le> dropped_mass S n1 (r - 1)" by auto
      then have "1 \<le> r - 1 \<and> r - 1 < n1" by arith
      with True have "dropped_mass S n1 (r - 1) < budget" unfolding C_def by blast
      with st(3) show False by simp
    qed
    with True show ?thesis by simp
  next
    case False
    with cases have "2 \<le> r \<and> r \<le> n1 \<and> budget \<le> dropped_mass S n1 (r - 1) \<and>
             (\<forall>j. r \<le> j \<and> j < n1 \<longrightarrow> dropped_mass S n1 j < budget)"
      unfolding C_def by blast
    with False show ?thesis by simp
  qed
  with eq show ?thesis unfolding C_def by blast
qed

text \<open>
  Claim C2 on the code.  Let \<open>n1 = min n0 max_rank\<close>, with \<open>n0\<close> the count of significant
  values.  The sweep of lines 136-144 assigns \<open>new_SV_num\<close> in its \<^verbatim>\<open>else\<close> branch only.  When
  it stops, at the largest index \<open>1 \<le> i < n1\<close> whose tail \<open>|S\<^sub>i|\<^sup>2 + \<dots> + |S\<^sub>n\<^sub>1\<^sub>-\<^sub>1|\<^sup>2\<close> is not
  strictly under the budget, the rank kept is \<open>i + 1\<close>.  When every such tail is under the
  budget the loop ends without the \<^verbatim>\<open>else\<close> branch, and the rank kept is \<open>n1\<close>: nothing is
  dropped by the sweep, although dropping all of the indices \<open>1, \<dots>, n1 - 1\<close> stays under
  the budget.
\<close>

theorem truncated_rank_sweep:
  assumes n1: "n1 = min (num_of_SV S chop) max_rank"
  shows "\<exists>r. truncated_rank chop S max_rank budget = Inr r \<and>
           (if \<forall>i. 1 \<le> i \<and> i < n1 \<longrightarrow> dropped_mass S n1 i < budget
            then r = n1
            else 2 \<le> r \<and> r \<le> n1 \<and> budget \<le> dropped_mass S n1 (r - 1) \<and>
                 (\<forall>j. r \<le> j \<and> j < n1 \<longrightarrow> dropped_mass S n1 j < budget))"
  using n1 by (rule truncated_rank_cases)

lemma dropped_mass_3_1: "dropped_mass [a, b, c] 3 1 = norm_d b + norm_d c"
proof -
  have "{1..<3::nat} = {1, 2}" by auto
  then show ?thesis by (simp add: dropped_mass_def)
qed

lemma dropped_mass_3_2: "dropped_mass [a, b, c] 3 2 = norm_d c"
proof -
  have "{2..<3::nat} = {2}" by auto
  then show ?thesis by (simp add: dropped_mass_def)
qed

text \<open>
  The theorem at \<open>S = [1, 1/4, 1/8]\<close> with the budget \<open>1/10\<close>: both tails, \<open>1/64\<close> and
  \<open>1/64 + 1/16\<close>, are under the budget, the sweep does not stop, and the rank kept is 3.
  And at \<open>S = [1, 1/2, 1/10]\<close> with the same budget: the sweep drops index 2 and stops at
  index 1, and the rank kept is 2.
\<close>

theorem truncated_rank_sweep_witness:
  "truncated_rank (1 / 10 ^ 16) [1, 1 / 4, 1 / 8] 3 (1 / 10) = Inr 3 \<and>
   dropped_mass [1, 1 / 4, 1 / 8] 3 1 < 1 / 10 \<and>
   truncated_rank (1 / 10 ^ 16) [1, 1 / 2, 1 / 10] 3 (1 / 10) = Inr 2"
proof -
  have n1: "(3::nat) = min (num_of_SV [1, 1 / 4, 1 / 8] (1 / 10 ^ 16)) 3"
    by (simp add: num_of_SV_def norm_d_def)
  have m1: "dropped_mass [1, 1 / 4, 1 / 8] 3 1 < 1 / 10"
    unfolding dropped_mass_3_1 by (simp add: norm_d_def)
  have m2: "dropped_mass [1, 1 / 4, 1 / 8] 3 2 < 1 / 10"
    unfolding dropped_mass_3_2 by (simp add: norm_d_def)
  have all: "\<forall>i. 1 \<le> i \<and> i < (3::nat) \<longrightarrow> dropped_mass [1, 1 / 4, 1 / 8] 3 i < 1 / 10"
  proof (intro allI impI)
    fix i :: nat assume "1 \<le> i \<and> i < 3"
    then have "i = 1 \<or> i = 2" by arith
    then show "dropped_mass [1, 1 / 4, 1 / 8] 3 i < 1 / 10" using m1 m2 by auto
  qed
  note fall = truncated_rank_sweep[OF n1, of "1 / 10"]
  from fall[unfolded if_P[OF all]]
  have 1: "truncated_rank (1 / 10 ^ 16) [1, 1 / 4, 1 / 8] 3 (1 / 10) = Inr 3"
    by blast
  have n1': "(3::nat) = min (num_of_SV [1, 1 / 2, 1 / 10] (1 / 10 ^ 16)) 3"
    by (simp add: num_of_SV_def norm_d_def)
  have n3: "\<not> dropped_mass [1, 1 / 2, 1 / 10] 3 1 < 1 / 10"
    unfolding dropped_mass_3_1 by (simp add: norm_d_def)
  have m3: "dropped_mass [1, 1 / 2, 1 / 10] 3 2 < 1 / 10"
    unfolding dropped_mass_3_2 by (simp add: norm_d_def)
  have nall: "\<not> (\<forall>i. 1 \<le> i \<and> i < (3::nat) \<longrightarrow> dropped_mass [1, 1 / 2, 1 / 10] 3 i < 1 / 10)"
    using n3 by (intro notI) (drule spec[of _ 1], simp)
  note stop = truncated_rank_sweep[OF n1', of "1 / 10"]
  from stop[unfolded if_not_P[OF nall]]
  obtain r where r: "truncated_rank (1 / 10 ^ 16) [1, 1 / 2, 1 / 10] 3 (1 / 10) = Inr r"
    "2 \<le> r" "r \<le> 3" "1 / 10 \<le> dropped_mass [1, 1 / 2, 1 / 10] 3 (r - 1)"
    by blast
  have "r \<noteq> 3" using r(4) m3 by auto
  with r(2,3) have "r = 2" by simp
  with r(1) 1 m1 show ?thesis by simp
qed

lemma truncated_rank_le:
  "\<exists>r. truncated_rank chop S max_rank budget = Inr r \<and> r \<le> num_of_SV S chop \<and> r \<le> max_rank"
proof -
  define n1 where "n1 = (if max_rank < num_of_SV S chop then max_rank else num_of_SV S chop)"
  have le: "n1 \<le> length S" "n1 \<le> num_of_SV S chop" "n1 \<le> max_rank"
    using num_of_SV_le[of S chop] by (simp_all add: n1_def)
  have tr: "truncated_rank chop S max_rank budget = budget_sweep S budget (int n1 - 1) n1 0"
    by (simp add: truncated_rank_def Let_def n1_def)
  from budget_sweep_result[of n1 n1 S 0 budget n1] le(1)
  obtain r where "budget_sweep S budget (int n1 - 1) n1 0 = Inr r" "r \<le> n1"
    by auto
  then show ?thesis using tr le by auto
qed

lemma truncated_rank_bound:
  assumes "truncated_rank chop S max_rank budget = Inr r"
  shows "r \<le> num_of_SV S chop" "r \<le> max_rank" "r \<le> length S"
  using truncated_rank_le[of chop S max_rank budget] assms num_of_SV_le[of S chop] by auto

text \<open>
  The loop of lines 159-161: it adds up the squares of the entries \<open>r, \<dots>, n0 - 1\<close> of the
  storage, which are the entries that \<open>S\<close> had there before the resize.
\<close>

lemma discarded_loop:
  assumes "r \<le> n0" "n0 \<le> length store"
  shows "forM [r..<n0] (\<lambda>i d. ebind (vread ''S'' store (int i)) (\<lambda>s. Inr (d + norm_d s))) d0
           = Inr (d0 + dropped_mass store n0 r)"
  using assms
proof (induction n0)
  case 0
  then show ?case by simp
next
  case (Suc n0)
  show ?case
  proof (cases "r = Suc n0")
    case True
    then show ?thesis by simp
  next
    case False
    then have le: "r \<le> n0" "n0 \<le> length store" "n0 < length store" using Suc.prems by simp_all
    have "dropped_mass store (Suc n0) r = dropped_mass store n0 r + norm_d (store ! n0)"
      using le(1) by (simp add: dropped_mass_def)
    then show ?thesis using Suc.IH[OF le(1,2)] le by (simp add: forM_snoc)
  qed
qed

text \<open>
  What \<^const>\<open>reduce_zeros\<close> returns, given the rank \<open>r\<close> of the sweep: the first \<open>r\<close> columns
  of \<open>U\<close>, the first \<open>r\<close> entries of \<open>S\<close> renormalised, the first \<open>r\<close> columns (or rows) of
  \<open>V\<close>, and the squares of the entries \<open>r, \<dots>, n0 - 1\<close> of \<open>S\<close>; a shape error when \<open>U\<close> or
  \<open>V\<close> has fewer than \<open>r\<close> columns (or rows).
\<close>

lemma reduce_zeros_eq:
  assumes tr: "truncated_rank chop S max_rank budget = Inr r"
  shows "reduce_zeros chop U S V max_rank budget lapack =
           (if r \<le> GetColumns U \<and> r \<le> (if lapack then GetRows V else GetColumns V)
            then Inr \<lparr>red_U = U\<lparr>GetRows := GetRows U, GetColumns := r\<rparr>,
                      red_S = renormalize (take r S),
                      red_V = (if lapack then V\<lparr>GetRows := r, GetColumns := GetColumns V\<rparr>
                               else V\<lparr>GetRows := GetRows V, GetColumns := r\<rparr>),
                      discarded_value = dropped_mass S (num_of_SV S chop) r\<rparr>
            else Inl ShapeError)"
proof -
  note b = truncated_rank_bound[OF tr]
  have st: "S @ replicate (r - length S) 0 = S" using b(3) by simp
  have loop: "(if r < num_of_SV S chop
               then forM [r..<num_of_SV S chop]
                      (\<lambda>i d. ebind (vread ''S'' S (int i)) (\<lambda>s. Inr (d + norm_d s))) 0
               else Inr 0) = Inr (dropped_mass S (num_of_SV S chop) r)"
  proof (cases "r < num_of_SV S chop")
    case True
    then show ?thesis
      using discarded_loop[of r "num_of_SV S chop" S 0] num_of_SV_le[of S chop] by simp
  next
    case False
    then have "r = num_of_SV S chop" using b(1) by simp
    then show ?thesis by simp
  qed
  show ?thesis
    unfolding reduce_zeros_def Let_def tr st ebind_Inr loop
    by (cases lapack) (simp_all add: resize_def)
qed

lemma length_renormalize [simp]: "length (renormalize R) = length R"
  by (simp add: renormalize_def Let_def)

lemma sum_squares_nonneg: "0 \<le> (\<Sum>s\<leftarrow>R. norm_d s)"
  by (rule sum_list_nonneg) auto

lemma sum_squares_scaled: "(\<Sum>s\<leftarrow>map (\<lambda>s. s / c) R. norm_d s) = (\<Sum>s\<leftarrow>R. norm_d s) / (c * c)"
proof -
  have "(\<Sum>s\<leftarrow>map (\<lambda>s. s / c) R. norm_d s) = (\<Sum>s\<leftarrow>R. norm_d s * (1 / (c * c)))"
    by (simp add: norm_d_def comp_def)
  also have "\<dots> = (\<Sum>s\<leftarrow>R. norm_d s) * (1 / (c * c))"
    by (rule sum_list_mult_const)
  finally show ?thesis by simp
qed

lemma renormalize_unit:
  assumes "(\<Sum>s\<leftarrow>R. norm_d s) \<noteq> 0"
  shows "\<bar>1 - (\<Sum>s\<leftarrow>renormalize R. norm_d s)\<bar> \<le> THRESHOLD"
proof (cases "almost_equal (1 - (\<Sum>s\<leftarrow>R. norm_d s)) 0 THRESHOLD")
  case True
  then show ?thesis by (simp add: renormalize_def almost_equal_def)
next
  case False
  have pos: "0 < (\<Sum>s\<leftarrow>R. norm_d s)" using assms sum_squares_nonneg[of R] by simp
  have "(\<Sum>s\<leftarrow>map (\<lambda>s. s / sqrt (\<Sum>s\<leftarrow>R. norm_d s)) R. norm_d s)
          = (\<Sum>s\<leftarrow>R. norm_d s) / (sqrt (\<Sum>s\<leftarrow>R. norm_d s) * sqrt (\<Sum>s\<leftarrow>R. norm_d s))"
    by (rule sum_squares_scaled)
  also have "\<dots> = 1" using pos by simp
  finally have "(\<Sum>s\<leftarrow>map (\<lambda>s. s / sqrt (\<Sum>s\<leftarrow>R. norm_d s)) R. norm_d s) = 1" .
  then show ?thesis using False by (simp add: renormalize_def Let_def THRESHOLD_def)
qed

lemma sqrt_16_25: "sqrt (16 / 25) = 4 / 5"
  using real_sqrt_abs2[of "4 / 5"] by simp

text \<open>
  The call on \<open>S = [4/5, 3/5]\<close> with \<open>max_rank = 1\<close>: the rank kept is 1, the entry \<open>3/5\<close> is
  dropped and its square \<open>9/25\<close> is the weight returned, read at \<open>S[1]\<close> after the resize;
  the entry kept is divided by \<open>\<surd>(16/25)\<close>.
\<close>

lemma reduce_zeros_capped:
  "reduce_zeros (1 / 10 ^ 16) (cmatrix 2 2) [4 / 5, 3 / 5] (cmatrix 2 2) 1 0 False
     = Inr \<lparr>red_U = cmatrix 2 1, red_S = [1], red_V = cmatrix 2 1, discarded_value = 9 / 25\<rparr>"
proof -
  have tr: "truncated_rank (1 / 10 ^ 16) [4 / 5, 3 / 5] 1 0 = Inr 1"
    by (simp add: truncated_rank_def num_of_SV_def norm_d_def)
  have n0: "num_of_SV [4 / 5, 3 / 5] (1 / 10 ^ 16) = 2"
    by (simp add: num_of_SV_def norm_d_def)
  have "{1..<2::nat} = {1}" by auto
  then have dm: "dropped_mass [4 / 5, 3 / 5] 2 1 = 9 / 25"
    by (simp add: dropped_mass_def norm_d_def)
  have rn: "renormalize [4 / 5] = [1]"
    by (simp add: renormalize_def almost_equal_def THRESHOLD_def norm_d_def sqrt_16_25)
  show ?thesis
    unfolding reduce_zeros_eq[OF tr] n0 dm
    by (simp add: rn cmatrix_def)
qed

text \<open>
  Claim C4, as the code has it.  Whenever \<^const>\<open>reduce_zeros\<close> returns and the sum of squares
  \<open>s2\<close> of the retained entries is not zero, the vector returned satisfies
  \<open>|1 - \<Sum> S\<^sub>i\<^sup>2| \<le> THRESHOLD\<close>: it is the retained vector divided entry by entry by \<open>\<surd>s2\<close>
  when \<open>|1 - s2| > THRESHOLD\<close>, and the retained vector as it is otherwise.
\<close>

theorem reduce_zeros_normalized:
  assumes ret: "reduce_zeros chop U S V max_rank budget lapack = Inr res"
    and s2: "s2 = (\<Sum>s\<leftarrow>take (length (red_S res)) S. norm_d s)"
    and nz: "s2 \<noteq> 0"
  shows "\<bar>1 - (\<Sum>s\<leftarrow>red_S res. norm_d s)\<bar> \<le> THRESHOLD \<and>
         red_S res = (if THRESHOLD < \<bar>1 - s2\<bar>
                      then map (\<lambda>s. s / sqrt s2) (take (length (red_S res)) S)
                      else take (length (red_S res)) S)"
proof -
  from truncated_rank_le[of chop S max_rank budget]
  obtain r where tr: "truncated_rank chop S max_rank budget = Inr r" by auto
  note b = truncated_rank_bound[OF tr]
  from ret have S': "red_S res = renormalize (take r S)"
    unfolding reduce_zeros_eq[OF tr] by (auto split: if_splits)
  have len: "length (red_S res) = r" using b(3) by (simp add: S')
  have "\<bar>1 - (\<Sum>s\<leftarrow>red_S res. norm_d s)\<bar> \<le> THRESHOLD"
    unfolding S' using nz s2 len by (intro renormalize_unit) simp
  moreover have "red_S res = (if THRESHOLD < \<bar>1 - s2\<bar>
                      then map (\<lambda>s. s / sqrt s2) (take (length (red_S res)) S)
                      else take (length (red_S res)) S)"
    unfolding len s2 by (simp add: S' renormalize_def Let_def almost_equal_def not_le)
  ultimately show ?thesis by simp
qed

text \<open>
  The theorem at \<open>S = [4/5, 3/5]\<close> with \<open>max_rank = 1\<close>: the entry \<open>3/5\<close> is dropped,
  \<open>s2 = 16/25\<close>, and the entry kept becomes 1.
\<close>

theorem reduce_zeros_normalized_witness:
  "map_sum id red_S (reduce_zeros (1 / 10 ^ 16) (cmatrix 2 2) [4 / 5, 3 / 5] (cmatrix 2 2) 1 0 False)
      = Inr [1] \<and>
   \<bar>1 - (\<Sum>s\<leftarrow>[1]. norm_d s)\<bar> \<le> THRESHOLD \<and>
   [1] = map (\<lambda>s. s / sqrt (16 / 25)) (take 1 [4 / 5, 3 / 5])"
proof -
  have s2: "(16 / 25 :: real) = (\<Sum>s\<leftarrow>take (length (red_S \<lparr>red_U = cmatrix 2 1, red_S = [1],
        red_V = cmatrix 2 1, discarded_value = 9 / 25\<rparr>)) [4 / 5, 3 / 5]. norm_d s)"
    by (simp add: norm_d_def)
  have nz: "(16 / 25 :: real) \<noteq> 0" by simp
  have far: "THRESHOLD < \<bar>1 - 16 / 25 :: real\<bar>" by (simp add: THRESHOLD_def)
  from reduce_zeros_normalized[OF reduce_zeros_capped s2 nz] far
  show ?thesis unfolding reduce_zeros_capped by simp
qed

text \<open>
  Claim C4 as stated, for every input: on \<open>S = [0]\<close> no value is significant, the retained
  vector is empty, its sum of squares is 0, and \<open>|1 - 0|\<close> exceeds the threshold.
\<close>

theorem reduce_zeros_zero_vector_counterexample:
  "map_sum id red_S (reduce_zeros (1 / 10 ^ 16) (cmatrix 1 1) [0] (cmatrix 1 1) 1 0 False) = Inr [] \<and>
   \<not> \<bar>1 - (\<Sum>s\<leftarrow>[]. norm_d s)\<bar> \<le> THRESHOLD"
  by (simp add: reduce_zeros_def truncated_rank_def num_of_SV_def norm_d_def vread_def
      resize_def cmatrix_def renormalize_def almost_equal_def THRESHOLD_def Let_def)

text \<open>
  Claim C3, as the code has it.  With \<open>r\<close> the rank kept and \<open>n0\<close> the count of significant
  values, a call whose \<open>U\<close> and \<open>V\<close> have at least \<open>r\<close> columns (rows of \<open>V\<close> when it holds the
  conjugate transpose) returns, with \<open>r\<close> entries in \<open>S\<close>, and the value returned is the sum
  of the squares of the entries \<open>r, \<dots>, n0 - 1\<close> of the vector \<open>S\<close> passed in.  The loop of
  lines 159-161 stops at \<open>n0\<close>: a dropped entry of index \<open>\<ge> n0\<close> is not added.
\<close>

theorem reduce_zeros_discarded_value:
  assumes tr: "truncated_rank chop S max_rank budget = Inr r"
    and U: "r \<le> GetColumns U"
    and V: "r \<le> (if lapack then GetRows V else GetColumns V)"
  shows "\<exists>res. reduce_zeros chop U S V max_rank budget lapack = Inr res \<and>
           length (red_S res) = r \<and>
           discarded_value res = (\<Sum>i = r..<num_of_SV S chop. norm_d (S ! i))"
proof -
  note b = truncated_rank_bound[OF tr]
  show ?thesis
    unfolding reduce_zeros_eq[OF tr] using U V b(3)
    by (simp add: dropped_mass_def)
qed

text \<open>
  The theorem at \<open>S = [4/5, 3/5]\<close> with \<open>max_rank = 1\<close>: the value returned is \<open>(3/5)\<^sup>2\<close>.
\<close>

theorem reduce_zeros_discarded_value_witness:
  "\<exists>res. reduce_zeros (1 / 10 ^ 16) (cmatrix 2 2) [4 / 5, 3 / 5] (cmatrix 2 2) 1 0 False = Inr res \<and>
           length (red_S res) = 1 \<and> discarded_value res = 9 / 25"
proof -
  have tr: "truncated_rank (1 / 10 ^ 16) [4 / 5, 3 / 5] 1 0 = Inr 1"
    by (simp add: truncated_rank_def num_of_SV_def norm_d_def)
  have n0: "num_of_SV [4 / 5, 3 / 5] (1 / 10 ^ 16) = 2"
    by (simp add: num_of_SV_def norm_d_def)
  have "{1..<2::nat} = {1}" by auto
  then have sum: "(\<Sum>i = 1..<2. norm_d ([4 / 5, 3 / 5 :: real] ! i)) = 9 / 25"
    by (simp add: norm_d_def)
  from reduce_zeros_discarded_value[OF tr, of "cmatrix 2 2" False "cmatrix 2 2"]
  show ?thesis unfolding n0 sum by (simp add: cmatrix_def)
qed

text \<open>
  Claim C3 as stated: on \<open>S = [1, 10\<^sup>-\<^sup>9]\<close> with \<open>chop = 10\<^sup>-\<^sup>1\<^sup>6\<close> the rank kept is 1, the
  entry \<open>S\<^sub>1\<close> is dropped, its squared magnitude is \<open>10\<^sup>-\<^sup>1\<^sup>8\<close>, and the value returned is 0.
\<close>

theorem discarded_value_counterexample:
  "map_sum id discarded_value
     (reduce_zeros (1 / 10 ^ 16) (cmatrix 2 2) [1, 1 / 10 ^ 9] (cmatrix 2 2) 2 0 False) = Inr 0 \<and>
   map_sum id (\<lambda>res. length (red_S res))
     (reduce_zeros (1 / 10 ^ 16) (cmatrix 2 2) [1, 1 / 10 ^ 9] (cmatrix 2 2) 2 0 False) = Inr 1 \<and>
   (\<Sum>i = 1..<2. norm_d ([1, 1 / 10 ^ 9] ! i)) = 1 / 10 ^ 18"
  by (simp add: reduce_zeros_def truncated_rank_def num_of_SV_def norm_d_def vread_def
      resize_def cmatrix_def renormalize_def almost_equal_def THRESHOLD_def Let_def)

lemma num_of_SV_all: "\<forall>s\<in>set S. chop < norm_d s \<Longrightarrow> num_of_SV S chop = length S"
  by (simp add: num_of_SV_def)

lemma truncated_rank_zero_budget:
  assumes "num_of_SV S chop \<le> max_rank"
  shows "truncated_rank chop S max_rank 0 = Inr (num_of_SV S chop)"
proof -
  let ?n = "num_of_SV S chop"
  have tr: "truncated_rank chop S max_rank 0 = budget_sweep S 0 (int ?n - 1) ?n 0"
    using assms by (simp add: truncated_rank_def Let_def)
  from budget_sweep_result[of ?n ?n S 0 0 ?n] num_of_SV_le[of S chop]
  obtain r where r: "budget_sweep S 0 (int ?n - 1) ?n 0 = Inr r"
    and cases: "r = ?n \<or> (r \<le> ?n \<and> (\<forall>j. r \<le> j \<and> j < ?n \<longrightarrow> dropped_mass S ?n j < 0))"
    by auto
  have "r = ?n"
  proof (rule ccontr)
    assume ne: "r \<noteq> ?n"
    with cases have "r < ?n" "dropped_mass S ?n r < 0" by auto
    then show False using dropped_mass_nonneg[of S ?n r] by simp
  qed
  then show ?thesis using tr r by simp
qed

text \<open>
  Claim C6, as the code has it.  When every entry of \<open>S\<close> is significant, \<open>max_rank\<close> is at
  least the length of \<open>S\<close>, the budget is 0, \<open>S\<close> is normalised within the threshold, and \<open>U\<close>
  and \<open>V\<close> have exactly \<open>|S|\<close> columns (rows of \<open>V\<close> when it holds the conjugate transpose),
  the call returns \<open>U\<close>, \<open>S\<close> and \<open>V\<close> as they were, with discarded weight 0.
\<close>

theorem reduce_zeros_idempotent:
  assumes sig: "\<forall>s\<in>set S. chop < norm_d s"
    and cap: "length S \<le> max_rank"
    and unit: "\<bar>1 - (\<Sum>s\<leftarrow>S. norm_d s)\<bar> \<le> THRESHOLD"
    and U: "GetColumns U = length S"
    and V: "(if lapack then GetRows V else GetColumns V) = length S"
  shows "reduce_zeros chop U S V max_rank 0 lapack
           = Inr \<lparr>red_U = U, red_S = S, red_V = V, discarded_value = 0\<rparr>"
proof -
  have n0: "num_of_SV S chop = length S" using sig by (rule num_of_SV_all)
  have tr: "truncated_rank chop S max_rank 0 = Inr (length S)"
    using truncated_rank_zero_budget[of S chop max_rank] cap n0 by simp
  have rn: "renormalize S = S" using unit by (simp add: renormalize_def almost_equal_def)
  have rU: "resize U (GetRows U) (length S) = Inr U" using U by (simp add: resize_def)
  have rV: "(if lapack then resize V (length S) (GetColumns V) else resize V (GetRows V) (length S)) = Inr V"
    using V by (cases lapack) (simp_all add: resize_def)
  show ?thesis unfolding reduce_zeros_def Let_def tr n0 
    using rU rV rn by (cases lapack) simp_all
qed

text \<open>
  The theorem at \<open>S = [4/5, 3/5]\<close>.
\<close>

theorem reduce_zeros_idempotent_witness:
  "reduce_zeros (1 / 10 ^ 16) (cmatrix 2 2) [4 / 5, 3 / 5] (cmatrix 2 2) 2 0 False
           = Inr \<lparr>red_U = cmatrix 2 2, red_S = [4 / 5, 3 / 5], red_V = cmatrix 2 2, discarded_value = 0\<rparr>"
  by (rule reduce_zeros_idempotent) (simp_all add: norm_d_def THRESHOLD_def cmatrix_def)

text \<open>
  Claim C6 as stated: \<open>S = [1, 0]\<close> is normalised and \<open>max_rank = 2 = |S|\<close>, yet the call
  returns \<open>S = [1]\<close> and a \<open>U\<close> of one column, since the entry 0 is not significant.
\<close>

theorem reduce_zeros_idempotent_counterexample:
  "\<bar>1 - (\<Sum>s\<leftarrow>[1, 0]. norm_d s)\<bar> \<le> THRESHOLD \<and>
   map_sum id red_S (reduce_zeros (1 / 10 ^ 16) (cmatrix 2 2) [1, 0] (cmatrix 2 2) 2 0 False) = Inr [1] \<and>
   map_sum id (\<lambda>res. GetColumns (red_U res))
      (reduce_zeros (1 / 10 ^ 16) (cmatrix 2 2) [1, 0] (cmatrix 2 2) 2 0 False) = Inr 1"
  by (simp add: reduce_zeros_def truncated_rank_def num_of_SV_def norm_d_def vread_def
      resize_def cmatrix_def renormalize_def almost_equal_def THRESHOLD_def Let_def)

text \<open>
  The example \<open>S = [1, 10\<^sup>-\<^sup>8, 10\<^sup>-\<^sup>1\<^sup>6, 0]\<close> with \<open>max_rank = 4\<close> and the budget \<open>10\<^sup>-\<^sup>1\<^sup>0\<close>, whatever
  \<^verbatim>\<open>CHOP_THRESHOLD\<close> is: every tail the sweep visits is under the budget, so the sweep does
  not stop, the rank kept is the count of significant values and the weight returned is 0.
\<close>

lemma truncation_example:
  fixes chop :: real
  defines "S \<equiv> [1, 1 / 10 ^ 8, 1 / 10 ^ 16, 0 :: real]"
  shows "\<exists>res. reduce_zeros chop (cmatrix 4 4) S (cmatrix 4 4) 4 (1 / 10 ^ 10) False = Inr res \<and>
           length (red_S res) = num_of_SV S chop \<and> discarded_value res = 0"
proof -
  define n1 where "n1 = min (num_of_SV S chop) 4"
  have n0: "num_of_SV S chop \<le> 4" using num_of_SV_le[of S chop] by (simp add: S_def)
  then have n1: "n1 = num_of_SV S chop" by (simp add: n1_def)
  have small: "dropped_mass S n1 i < 1 / 10 ^ 10" if "1 \<le> i" for i
  proof -
    have "dropped_mass S n1 i \<le> dropped_mass S n1 1"
      using that by (rule dropped_mass_antimono)
    also have "dropped_mass S n1 1 \<le> dropped_mass S 4 1"
      unfolding dropped_mass_def using n0 n1 by (intro sum_mono2) auto
    also have "dropped_mass S 4 1 < 1 / 10 ^ 10"
    proof -
      have "{1..<4::nat} = {1, 2, 3}" by auto
      then show ?thesis by (simp add: dropped_mass_def S_def norm_d_def)
    qed
    finally show ?thesis .
  qed
  have all: "\<forall>i. 1 \<le> i \<and> i < n1 \<longrightarrow> dropped_mass S n1 i < 1 / 10 ^ 10"
    using small by blast
  note t = truncated_rank_cases[OF n1_def, of "1 / 10 ^ 10"]
  from t[unfolded if_P[OF all]]
  have tr: "truncated_rank chop S 4 (1 / 10 ^ 10) = Inr (num_of_SV S chop)"
    unfolding n1 by blast
  show ?thesis
    unfolding reduce_zeros_eq[OF tr] using n0 num_of_SV_le[of S chop] by (simp add: cmatrix_def)
qed

section \<open>The reconstruction check\<close>

lemma forM_check:
  assumes "\<forall>x\<in>set xs. body x () = Inr () \<or> body x () = Inl e"
  shows "forM xs body () = (if \<exists>x\<in>set xs. body x () = Inl e then Inl e else Inr ())"
  using assms
proof (induction xs)
  case Nil
  show ?case by simp
next
  case (Cons a xs)
  then show ?case by (cases "body a ()") auto
qed

lemma validate_entry_cases:
  assumes "ii < GetRows A" "jj < GetColumns A" "ii < GetRows P" "jj < GetColumns P"
  shows "validate_entry A P ii jj () =
           (if THRESHOLD < \<bar>cmod (elem A ii jj) - cmod (elem P ii jj)\<bar>
            then Inl (RuntimeError ''Error: Wrong SVD calculations: A != USV*'') else Inr ())"
  using assms by (simp add: validate_entry_def mat_at_def almost_equal_def not_le)

text \<open>
  Claim C8.  For an \<open>m \<times> n\<close> matrix \<open>A\<close>, \<open>U\<close> of shape \<open>m \<times> m\<close>, \<open>V\<close> of shape \<open>n \<times> n\<close> and
  \<open>S\<close> with at least \<open>min m n\<close> entries, \<^const>\<open>validate_SVD_result\<close> raises its runtime error
  exactly when some pair \<open>(i, j)\<close> has \<open>| |A(i,j)| - |P(i,j)| | > THRESHOLD\<close>, with
  \<open>P = U \<cdot> diag(S) \<cdot> V\<^sup>\<dagger>\<close>, and returns normally otherwise.  The outcome depends on the
  magnitudes \<open>|A(i,j)|\<close> and \<open>|P(i,j)|\<close> only, and the function returns nothing but this
  outcome: its arguments are constant references.
\<close>

theorem validate_SVD_result_raises:
  assumes S: "min (GetRows A) (GetColumns A) \<le> length S"
    and U: "GetRows U = GetRows A" "GetColumns U = GetRows A"
    and V: "GetRows V = GetColumns A" "GetColumns V = GetColumns A"
  shows "validate_SVD_result A U S V =
           (if \<exists>i<GetRows A. \<exists>j<GetColumns A.
                 THRESHOLD < \<bar>cmod (elem A i j) - cmod (elem (svd_product A U S V) i j)\<bar>
            then Inl (RuntimeError ''Error: Wrong SVD calculations: A != USV*'')
            else Inr ())"
proof -
  let ?e = "RuntimeError ''Error: Wrong SVD calculations: A != USV*''"
  let ?P = "svd_product A U S V"
  let ?bad = "\<lambda>i j. THRESHOLD < \<bar>cmod (elem A i j) - cmod (elem ?P i j)\<bar>"
  have dims: "GetRows ?P = GetRows A" "GetColumns ?P = GetColumns A"
    using U V by (simp_all add: svd_product_def mat_mul_def dagger_def)
  have unfold: "validate_SVD_result A U S V
      = forM [0..<GetRows A] (\<lambda>ii. forM [0..<GetColumns A] (validate_entry A ?P ii)) ()"
    using S by (simp add: validate_SVD_result_def diag_result svd_product_def Let_def)
  have inner: "forM [0..<GetColumns A] (validate_entry A ?P ii) ()
      = (if \<exists>j<GetColumns A. ?bad ii j then Inl ?e else Inr ())" if "ii < GetRows A" for ii
  proof -
    have "forM [0..<GetColumns A] (validate_entry A ?P ii) ()
      = (if \<exists>j\<in>set [0..<GetColumns A]. validate_entry A ?P ii j () = Inl ?e then Inl ?e else Inr ())"
      by (rule forM_check) (simp add: validate_entry_cases that dims)
    also have "(\<exists>j\<in>set [0..<GetColumns A]. validate_entry A ?P ii j () = Inl ?e)
        \<longleftrightarrow> (\<exists>j<GetColumns A. ?bad ii j)"
      using that dims by (auto simp: validate_entry_cases)
    finally show ?thesis .
  qed
  have "forM [0..<GetRows A] (\<lambda>ii. forM [0..<GetColumns A] (validate_entry A ?P ii)) ()
      = (if \<exists>i\<in>set [0..<GetRows A]. forM [0..<GetColumns A] (validate_entry A ?P i) () = Inl ?e
         then Inl ?e else Inr ())"
    by (rule forM_check) (simp add: inner)
  also have "(\<exists>i\<in>set [0..<GetRows A]. forM [0..<GetColumns A] (validate_entry A ?P i) () = Inl ?e)
      \<longleftrightarrow> (\<exists>i<GetRows A. \<exists>j<GetColumns A. ?bad i j)"
    by (auto simp: inner)
  finally show ?thesis using unfold by simp
qed

text \<open>
  The theorem on \<open>A = (2)\<close>, \<open>U = V = (1)\<close>: \<open>S = [2]\<close> passes, \<open>S = [3]\<close> raises.
\<close>

theorem validate_SVD_result_raises_witness:
  "validate_SVD_result (mput (cmatrix 1 1) 0 0 2) (mput (cmatrix 1 1) 0 0 1) [2] (mput (cmatrix 1 1) 0 0 1) = Inr () \<and>
   validate_SVD_result (mput (cmatrix 1 1) 0 0 2) (mput (cmatrix 1 1) 0 0 1) [3] (mput (cmatrix 1 1) 0 0 1)
     = Inl (RuntimeError ''Error: Wrong SVD calculations: A != USV*'')"
proof -
  have P: "elem (svd_product (mput (cmatrix 1 1) 0 0 2) (mput (cmatrix 1 1) 0 0 1) [s] (mput (cmatrix 1 1) 0 0 1)) 0 0
        = complex_of_real s" for s
    by (simp add: svd_product_def mat_mul_def dagger_def mput_def cmatrix_def)
  show ?thesis
    using validate_SVD_result_raises[of "mput (cmatrix 1 1) 0 0 2" "[2]" "mput (cmatrix 1 1) 0 0 1" "mput (cmatrix 1 1) 0 0 1"]
      validate_SVD_result_raises[of "mput (cmatrix 1 1) 0 0 2" "[3]" "mput (cmatrix 1 1) 0 0 1" "mput (cmatrix 1 1) 0 0 1"]
      P[of 2] P[of 3]
    by (simp add: mput_def cmatrix_def THRESHOLD_def)
qed


section \<open>The retry wrapper\<close>

lemma rescaled_0 [simp]: "rescaled A 0 = A"
  by (simp add: rescaled_def)

lemma rescaled_Suc: "rescaled (scale A mul_factor) j = rescaled A (Suc j)"
  using funpow_swap1[of "\<lambda>M. scale M mul_factor" j A] by (simp add: rescaled_def)

lemma fails_at_shift: "fails_at kern n (scale A mul_factor) j = fails_at kern n A (Suc j)"
  by (simp add: fails_at_def rescaled_Suc)

lemma succeeds_at_shift: "succeeds_at kern n (scale A mul_factor) j = succeeds_at kern n A (Suc j)"
  by (simp add: succeeds_at_def rescaled_Suc)

lemma fails_atD:
  assumes "fails_at kern n A j" "length S = n"
  obtains A' U' S' V' where "kern (rescaled A j) U S V = Inr (FAILURE, A', U', S', V')" "length S' = n"
  using assms unfolding fails_at_def by blast

lemma succeeds_atD:
  assumes "succeeds_at kern n A j" "length S = n"
  obtains args where "kern (rescaled A j) U S V = Inr (SUCCESS, args)"
  using assms unfolding succeeds_at_def by blast

declare retry_loop.simps [simp del]

lemma retry_loop_exit:
  "\<not> (t \<le> NUM_SVD_TRIES \<and> st = FAILURE) \<Longrightarrow> retry_loop kern t st cA args = Inr (t, st, args)"
  by (subst retry_loop.simps) auto

lemma retry_loop_step:
  assumes "t \<le> NUM_SVD_TRIES" "kern (scale cA mul_factor) U S V = Inr (st, args')"
  shows "retry_loop kern t FAILURE cA (A, U, S, V) = retry_loop kern (t + 1) st (scale cA mul_factor) args'"
  using assms by (subst retry_loop.simps) simp

lemma retry_succeeds_after:
  assumes "\<forall>j<k. fails_at kern n cA (Suc j)" "succeeds_at kern n cA (Suc k)" "t + k \<le> 15"
    and "length S = n"
  shows "\<exists>U0 S0 V0 args'. kern (rescaled cA (Suc k)) U0 S0 V0 = Inr (SUCCESS, args') \<and>
           retry_loop kern (int t) FAILURE cA (A, U, S, V) = Inr (int (t + k + 1), SUCCESS, args')"
  using assms
proof (induction k arbitrary: t cA A U S V)
  case 0
  from succeeds_atD[OF 0(2) 0(4)] obtain args' where
    c: "kern (rescaled cA (Suc 0)) U S V = Inr (SUCCESS, args')" by blast
  then have c': "kern (scale cA mul_factor) U S V = Inr (SUCCESS, args')"
    by (simp add: rescaled_def)
  have "retry_loop kern (int t) FAILURE cA (A, U, S, V)
      = retry_loop kern (int t + 1) SUCCESS (scale cA mul_factor) args'"
    using 0(3) c' by (intro retry_loop_step) (simp_all add: NUM_SVD_TRIES_def)
  also have "\<dots> = Inr (int t + 1, SUCCESS, args')" by (rule retry_loop_exit) simp
  finally have "retry_loop kern (int t) FAILURE cA (A, U, S, V) = Inr (int (t + 0 + 1), SUCCESS, args')"
    by simp
  with c show ?case by blast
next
  case (Suc k)
  from Suc.prems(1) have "fails_at kern n cA (Suc 0)" by blast
  from fails_atD[OF this Suc.prems(4)] obtain A1 U1 S1 V1 where
    "kern (rescaled cA (Suc 0)) U S V = Inr (FAILURE, A1, U1, S1, V1)" and l1: "length S1 = n"
    by blast
  then have c: "kern (scale cA mul_factor) U S V = Inr (FAILURE, A1, U1, S1, V1)"
    by (simp add: rescaled_def)
  have step: "retry_loop kern (int t) FAILURE cA (A, U, S, V)
      = retry_loop kern (int (Suc t)) FAILURE (scale cA mul_factor) (A1, U1, S1, V1)"
    using Suc.prems(3) c retry_loop_step[where t = "int t" and kern = kern and cA = cA and U = U and S = S and V = V
        and st = FAILURE and args' = "(A1, U1, S1, V1)" and A = A]
    by (simp add: NUM_SVD_TRIES_def add.commute)
  have f: "\<forall>j<k. fails_at kern n (scale cA mul_factor) (Suc j)"
    using Suc.prems(1) by (simp add: fails_at_shift)
  have s: "succeeds_at kern n (scale cA mul_factor) (Suc k)"
    using Suc.prems(2) by (simp add: succeeds_at_shift)
  from Suc.IH[OF f s _ l1, of "Suc t" A1 U1 V1] Suc.prems(3)
  show ?case unfolding step by (simp add: rescaled_Suc)
qed

lemma retry_all_fail:
  assumes "\<forall>j<k. fails_at kern n cA (Suc j)" "t + k = 16" "length S = n"
  shows "\<exists>A' U' S' V'. retry_loop kern (int t) FAILURE cA (A, U, S, V) = Inr (16, FAILURE, A', U', S', V')"
  using assms
proof (induction k arbitrary: t cA A U S V)
  case 0
  then have "retry_loop kern (int t) FAILURE cA (A, U, S, V) = Inr (int t, FAILURE, A, U, S, V)"
    by (intro retry_loop_exit) (simp add: NUM_SVD_TRIES_def)
  moreover have "int t = 16" using 0 by simp
  ultimately have "retry_loop kern (int t) FAILURE cA (A, U, S, V) = Inr (16, FAILURE, A, U, S, V)" by simp
  then show ?case by blast
next
  case (Suc k)
  from Suc.prems(1) have "fails_at kern n cA (Suc 0)" by blast
  from fails_atD[OF this Suc.prems(3)] obtain A1 U1 S1 V1 where
    "kern (rescaled cA (Suc 0)) U S V = Inr (FAILURE, A1, U1, S1, V1)" and l1: "length S1 = n"
    by blast
  then have c: "kern (scale cA mul_factor) U S V = Inr (FAILURE, A1, U1, S1, V1)"
    by (simp add: rescaled_def)
  have step: "retry_loop kern (int t) FAILURE cA (A, U, S, V)
      = retry_loop kern (int (Suc t)) FAILURE (scale cA mul_factor) (A1, U1, S1, V1)"
    using Suc.prems(2) c retry_loop_step[where t = "int t" and kern = kern and cA = cA and U = U and S = S and V = V
        and st = FAILURE and args' = "(A1, U1, S1, V1)" and A = A]
    by (simp add: NUM_SVD_TRIES_def add.commute)
  have f: "\<forall>j<k. fails_at kern n (scale cA mul_factor) (Suc j)"
    using Suc.prems(1) by (simp add: fails_at_shift)
  from Suc.IH[OF f _ l1, of "Suc t" A1 U1 V1] Suc.prems(2)
  show ?case unfolding step by simp
qed

lemma wrapper_first_success:
  "kern A U S V = Inr (SUCCESS, args) \<Longrightarrow> qiskit_csvd_wrapper_with kern A U S V = Inr args"
  by (simp add: qiskit_csvd_wrapper_with_def)

lemma wrapper_after_retries:
  assumes first: "fails_at kern n A 0"
    and fails: "\<forall>j<k. fails_at kern n A (Suc j)"
    and succ: "succeeds_at kern n A (Suc k)"
    and k: "k \<le> 15"
    and len: "length S = n"
  shows "if Suc k = 15 then qiskit_csvd_wrapper_with kern A U S V = Inl (RuntimeError ''SVD failed'')
         else (\<exists>U0 S0 V0 A' U' S' V'. kern (rescaled A (Suc k)) U0 S0 V0 = Inr (SUCCESS, A', U', S', V') \<and>
                qiskit_csvd_wrapper_with kern A U S V = Inr (A', U', map (\<lambda>s. s / mul_factor ^ Suc k) S', V'))"
proof -
  from fails_atD[OF first len] obtain A0 U0 S0 V0 where
    "kern (rescaled A 0) U S V = Inr (FAILURE, A0, U0, S0, V0)" and l0: "length S0 = n" by blast
  then have c0: "kern A U S V = Inr (FAILURE, A0, U0, S0, V0)" by simp
  from retry_succeeds_after[OF fails succ _ l0, of 0 A0 U0 V0] k
  obtain U1 S1 V1 args' where last: "kern (rescaled A (Suc k)) U1 S1 V1 = Inr (SUCCESS, args')"
    and loop: "retry_loop kern 0 FAILURE A (A0, U0, S0, V0) = Inr (int (Suc k), SUCCESS, args')"
    by auto
  obtain A' U' S' V' where args': "args' = (A', U', S', V')" by (cases args') auto
  show ?thesis
  proof (cases "Suc k = 15")
    case True
    then have "int (Suc k) = NUM_SVD_TRIES" by (simp add: NUM_SVD_TRIES_def)
    then show ?thesis using True c0 loop args'
      by (simp add: qiskit_csvd_wrapper_with_def)
  next
    case False
    then have ne: "int (Suc k) \<noteq> NUM_SVD_TRIES" by (simp add: NUM_SVD_TRIES_def)
    have "qiskit_csvd_wrapper_with kern A U S V = Inr (A', U', map (\<lambda>s. s / mul_factor ^ Suc k) S', V')"
      using c0 loop args' ne by (simp add: qiskit_csvd_wrapper_with_def del: of_nat_Suc)
    then show ?thesis using False last args' by auto
  qed
qed

lemma wrapper_all_fail:
  assumes first: "fails_at kern n A 0"
    and fails: "\<forall>j<16. fails_at kern n A (Suc j)"
    and len: "length S = n"
  shows "\<exists>A' U' S' V'. qiskit_csvd_wrapper_with kern A U S V
           = Inr (A', U', map (\<lambda>s. s / mul_factor ^ 16) S', V')"
proof -
  from fails_atD[OF first len] obtain A0 U0 S0 V0 where
    "kern (rescaled A 0) U S V = Inr (FAILURE, A0, U0, S0, V0)" and l0: "length S0 = n" by blast
  then have c0: "kern A U S V = Inr (FAILURE, A0, U0, S0, V0)" by simp
  from retry_all_fail[OF fails _ l0, of 0 A0 U0 V0]
  obtain A' U' S' V' where loop: "retry_loop kern 0 FAILURE A (A0, U0, S0, V0) = Inr (16, FAILURE, A', U', S', V')"
    by auto
  have "qiskit_csvd_wrapper_with kern A U S V = Inr (A', U', map (\<lambda>s. s / mul_factor ^ 16) S', V')"
    using c0 loop by (simp add: qiskit_csvd_wrapper_with_def NUM_SVD_TRIES_def)
  then show ?thesis by blast
qed

lemma elem_rescaled: "elem (rescaled A j) r c = elem A r c * complex_of_real (mul_factor ^ j)"
  by (induction j) (simp_all add: rescaled_def scale_def)

section \<open>The kernel \<^verbatim>\<open>csvd\<close>\<close>

lemma ebind_Inr_iff: "ebind m f = Inr y \<longleftrightarrow> (\<exists>x. m = Inr x \<and> f x = Inr y)"
  by (cases m) simp_all

lemma forM_upt_invariant:
  assumes "forM [a..<b] body s = Inr s'" and "P a s" and "a \<le> b"
    and "\<And>i s s'. a \<le> i \<Longrightarrow> i < b \<Longrightarrow> P i s \<Longrightarrow> body i s = Inr s' \<Longrightarrow> P (Suc i) s'"
  shows "P b s'"
  using assms
proof (induction b arbitrary: s')
  case 0
  then show ?case by simp
next
  case (Suc b)
  show ?case
  proof (cases "a = Suc b")
    case True
    then show ?thesis using Suc.prems by simp
  next
    case False
    then have ab: "a \<le> b" using Suc.prems(3) by simp
    from Suc.prems(1) ab obtain s1 where s1: "forM [a..<b] body s = Inr s1" "body b s1 = Inr s'"
      by (auto simp: forM_snoc ebind_Inr_iff)
    have "P b s1"
      using Suc.IH[OF s1(1) Suc.prems(2) ab] Suc.prems(4) by simp
    then show ?thesis using Suc.prems(4)[of b s1 s'] ab s1(2) by simp
  qed
qed

lemma forM_fails_at:
  assumes "L < n" and "P s0"
    and "\<And>k s. k < L \<Longrightarrow> P s \<Longrightarrow> \<exists>s'. body k s = Inr s' \<and> P s'"
    and "\<And>s. P s \<Longrightarrow> body L s = Inl e"
  shows "forM [0..<n] body s0 = Inl e"
proof -
  have pre: "\<exists>s'. forM [0..<k] body s0 = Inr s' \<and> P s'" if "k \<le> L" for k
    using that
  proof (induction k)
    case 0
    then show ?case using assms(2) by simp
  next
    case (Suc k)
    then obtain s1 where "forM [0..<k] body s0 = Inr s1" "P s1" by auto
    moreover from assms(3)[of k s1] Suc.prems \<open>P s1\<close> obtain s2 where "body k s1 = Inr s2" "P s2" by auto
    ultimately show ?case by (simp add: forM_snoc)
  qed
  from pre[of L] obtain s1 where s1: "forM [0..<L] body s0 = Inr s1" "P s1" by auto
  have "forM [0..<n] body s0 = ebind (forM [0..<L] body s0) (forM (L # [Suc L..<n]) body)"
    using upt_split3[OF assms(1)] by (simp add: forM_append)
  then show ?thesis using s1 assms(4)[OF s1(2)] by simp
qed

lemma vwrite_Inr: "vwrite nm v i x = Inr v' \<Longrightarrow> 0 \<le> i \<and> i < int (length v) \<and> v' = v[nat i := x]"
  by (simp add: vwrite_def split: if_splits)

lemma vread_Inr: "vread nm v i = Inr x \<Longrightarrow> 0 \<le> i \<and> i < int (length v) \<and> x = v ! nat i"
  by (simp add: vread_def split: if_splits)

lemma init_step_ok:
  "k < length S \<Longrightarrow> \<exists>t' e'. init_step b c k (S, t, eps) = Inr (S[k := b ! k], t[k := c ! k], e')"
  by (simp add: init_step_def vwrite_def vread_def Let_def)

lemma init_step_fail:
  "length S \<le> k \<Longrightarrow> init_step b c k (S, t, eps) = Inl (OutOfRange ''S'' (int k))"
  by (simp add: init_step_def vwrite_def)

lemma init_step_Inr:
  assumes "init_step b c k (S, t, eps) = Inr s'"
  shows "k < length S \<and> (\<exists>e'. s' = (S[k := b ! k], t[k := c ! k], e'))"
proof -
  have "k < length S" using assms init_step_fail[of S k b c t eps] by (cases "k < length S") auto
  then show ?thesis using init_step_ok[of k S b c t eps] assms by auto
qed

text \<open>The loop of lines 315-319 writes \<open>S[k]\<close> for every \<open>k < n\<close> and keeps the length of \<open>S\<close>.\<close>

lemma init_S_t_short:
  assumes "length S < n"
  shows "init_S_t n b c (S, t, eps) = Inl (OutOfRange ''S'' (int (length S)))"
  unfolding init_S_t_def
proof (rule forM_fails_at[where P = "\<lambda>s. length (fst s) = length S" and L = "length S"])
  show "length S < n" by fact
  show "length (fst (S, t, eps)) = length S" by simp
next
  fix k and s :: "rvector_t \<times> rvector_t \<times> real"
  assume k: "k < length S" and P: "length (fst s) = length S"
  obtain S1 t1 e1 where s: "s = (S1, t1, e1)" by (cases s) auto
  from init_step_ok[of k S1 b c t1 e1] k P s
  show "\<exists>s'. init_step b c k s = Inr s' \<and> length (fst s') = length S" by auto
next
  fix s :: "rvector_t \<times> rvector_t \<times> real"
  assume P: "length (fst s) = length S"
  obtain S1 t1 e1 where s: "s = (S1, t1, e1)" by (cases s) auto
  from init_step_fail[of S1 "length S" b c t1 e1] P s
  show "init_step b c (length S) s = Inl (OutOfRange ''S'' (int (length S)))" by simp
qed

lemma init_S_t_Inr:
  assumes "init_S_t n b c (S, t, eps) = Inr s'"
  shows "length (fst s') = length S \<and> n \<le> length S \<and> length (fst (snd s')) = length t"
proof -
  have "length (fst s') = length S \<and> n \<le> length S \<and> length (fst (snd s')) = length t"
    using assms unfolding init_S_t_def
  proof (rule forM_upt_invariant[where P = "\<lambda>i s. length (fst s) = length S \<and> i \<le> length S \<and> length (fst (snd s)) = length t"])
    show "length (fst (S, t, eps)) = length S \<and> 0 \<le> length S \<and> length (fst (snd (S, t, eps))) = length t"
      by simp
    show "0 \<le> n" by simp
  next
    fix i and s s' :: "rvector_t \<times> rvector_t \<times> real"
    assume "i < n" and P: "length (fst s) = length S \<and> i \<le> length S \<and> length (fst (snd s)) = length t"
      and body: "init_step b c i s = Inr s'"
    obtain S1 t1 e1 where s: "s = (S1, t1, e1)" by (cases s) auto
    from init_step_Inr[of b c i S1 t1 e1 s'] body s P
    show "length (fst s') = length S \<and> Suc i \<le> length S \<and> length (fst (snd s')) = length t"
      by auto
  qed
  then show ?thesis .
qed

lemma kept_above_refl [simp]: "kept_above k S S"
  by (simp add: kept_above_def)

lemma kept_above_trans: "kept_above k S S1 \<Longrightarrow> kept_above k S1 S2 \<Longrightarrow> kept_above k S S2"
  by (simp add: kept_above_def)

lemma kept_above_mono: "kept_above k S S' \<Longrightarrow> k \<le> k' \<Longrightarrow> kept_above k' S S'"
  by (simp add: kept_above_def)

lemma vwrite_kept_above: "vwrite nm S i x = Inr S' \<Longrightarrow> i \<le> k \<Longrightarrow> kept_above k S S'"
  by (auto simp: vwrite_def kept_above_def split: if_splits)

declare cancellation.simps [simp del] chase.simps [simp del] deflation_scan.simps [simp del]

lemma cancellation_step_S:
  assumes "cancellation_step n eps l1 i cs sn st = Inr (stop, cs', sn', st')"
  shows "qS st' = qS st \<or> (\<exists>w. vwrite ''S'' (qS st) i w = Inr (qS st'))"
  using assms unfolding cancellation_step_def
  by (auto simp: ebind_Inr_iff Let_def split: if_splits)

lemma cancellation_S:
  "cancellation n eps k l1 i cs sn st = Inr st' \<Longrightarrow> kept_above k (qS st) (qS st')"
proof (induction "nat (k + 1 - i)" arbitrary: i cs sn st)
  case 0
  then have "\<not> i \<le> k" by simp
  then show ?case using "0.prems" by (subst (asm) cancellation.simps) simp
next
  case (Suc d)
  then have ik: "i \<le> k" by simp
  from Suc.prems ik obtain stop cs1 sn1 st1 where
    step: "cancellation_step n eps l1 i cs sn st = Inr (stop, cs1, sn1, st1)"
    and rest: "(if stop then Inr st1 else cancellation n eps k l1 (i + 1) cs1 sn1 st1) = Inr st'"
    by (subst (asm) cancellation.simps) (auto split: sum.splits)
  have one: "kept_above k (qS st) (qS st1)"
    using cancellation_step_S[OF step] vwrite_kept_above[of "''S''" "qS st" i _ "qS st1" k] ik by auto
  show ?case
  proof (cases stop)
    case True
    then show ?thesis using rest one by simp
  next
    case False
    then have "cancellation n eps k l1 (i + 1) cs1 sn1 st1 = Inr st'" using rest by simp
    from Suc.hyps(1)[OF _ this] Suc.hyps(2) have "kept_above k (qS st1) (qS st')" by simp
    then show ?thesis using one kept_above_trans by blast
  qed
qed

lemma chase_step_S:
  assumes "chase_step n i cs sn f x st = Inr (status, cs', sn', f', x', st')"
  shows "qS st' = qS st \<or> (\<exists>w. vwrite ''S'' (qS st) (i - 1) w = Inr (qS st'))"
  using assms unfolding chase_step_def
  by (auto simp: ebind_Inr_iff Let_def split: if_splits)

lemma chase_S:
  "chase n k i cs sn f x st = Inr (status, f', x', st') \<Longrightarrow> kept_above k (qS st) (qS st')"
proof (induction "nat (k + 1 - i)" arbitrary: i cs sn f x st)
  case 0
  then have "\<not> i \<le> k" by simp
  then show ?case using "0.prems" by (subst (asm) chase.simps) simp
next
  case (Suc d)
  then have ik: "i \<le> k" by simp
  from Suc.prems ik obtain status1 cs1 sn1 f1 x1 st1 where
    step: "chase_step n i cs sn f x st = Inr (status1, cs1, sn1, f1, x1, st1)"
    and rest: "(if status1 = FAILURE then Inr (FAILURE, f1, x1, st1)
                else chase n k (i + 1) cs1 sn1 f1 x1 st1) = Inr (status, f', x', st')"
    by (subst (asm) chase.simps) (auto split: sum.splits)
  have one: "kept_above k (qS st) (qS st1)"
    using chase_step_S[OF step] vwrite_kept_above[of "''S''" "qS st" "i - 1" _ "qS st1" k] ik by auto
  show ?case
  proof (cases "status1 = FAILURE")
    case True
    then show ?thesis using rest one by simp
  next
    case False
    then have "chase n k (i + 1) cs1 sn1 f1 x1 st1 = Inr (status, f', x', st')" using rest by simp
    from Suc.hyps(1)[OF _ this] Suc.hyps(2) have "kept_above k (qS st1) (qS st')" by simp
    then show ?thesis using one kept_above_trans by blast
  qed
qed

lemma qr_round_S:
  assumes "qr_round n eps k st = Inr (r, st')"
  shows "kept_above k (qS st) (qS st') \<and>
         (\<forall>w. r = Some (SUCCESS, w) \<longrightarrow> 0 \<le> k \<and> k < int (length (qS st')) \<and> w = qS st' ! nat k)"
proof -
  from assms obtain l jump st1 w where
    c: "(if \<not> jump then cancellation n eps k (l - 1) l 0 1 st else Inr st) = Inr st1"
    and w: "vread ''S'' (qS st1) k = Inr w"
    and rest: "(if l = k then Inr (Some (SUCCESS, w), st1)
     else
       ebind (vread ''S'' (qS st1) l) (\<lambda>x.
       ebind (vread ''S'' (qS st1) (k - 1)) (\<lambda>y.
       ebind (vread ''t'' (qt st1) (k - 1)) (\<lambda>g.
       ebind (vread ''t'' (qt st1) k) (\<lambda>h.
       let f = ((y - w) * (y + w) + (g - h) * (g + h)) / (2 * h * y);
           g = sqrt (f * f + 1);
           g = (if f < - 1 / 10 ^ 13 then - g else g);
           f = ((x - w) * (x + w) + (y / (f + g) - h) * h) / x in
       ebind (chase n k (l + 1) 1 1 f x st1) (\<lambda>(status, f, x, st).
       if status = FAILURE then Inr (Some (FAILURE, w), st)
       else
         ebind (vwrite ''t'' (qt st) l 0) (\<lambda>t.
         ebind (vwrite ''t'' t k f) (\<lambda>t.
         ebind (vwrite ''S'' (qS st) k x) (\<lambda>S.
         Inr (None, st\<lparr>qS := S, qt := t\<rparr>)))))))))) = Inr (r, st')"
    unfolding qr_round_def by (auto simp: ebind_Inr_iff)
  have k1: "kept_above k (qS st) (qS st1)"
    using c cancellation_S[of n eps k "l - 1" l 0 1 st st1] by (cases jump) auto
  show ?thesis
  proof (cases "l = k")
    case True
    then have "r = Some (SUCCESS, w)" "st' = st1" using rest by auto
    then show ?thesis using k1 vread_Inr[OF w] by auto
  next
    case False
    with rest obtain f0 x0 status f x st2 where
      ch: "chase n k (l + 1) 1 1 f0 x0 st1 = Inr (status, f, x, st2)"
      and fin: "(if status = FAILURE then Inr (Some (FAILURE, w), st2)
       else
         ebind (vwrite ''t'' (qt st2) l 0) (\<lambda>t.
         ebind (vwrite ''t'' t k f) (\<lambda>t.
         ebind (vwrite ''S'' (qS st2) k x) (\<lambda>S.
         Inr (None, st2\<lparr>qS := S, qt := t\<rparr>))))) = Inr (r, st')"
      by (auto simp: ebind_Inr_iff Let_def)
    have k2: "kept_above k (qS st1) (qS st2)" using chase_S[OF ch] .
    show ?thesis
    proof (cases "status = FAILURE")
      case True
      then have "r = Some (FAILURE, w)" "st' = st2" using fin by auto
      then show ?thesis using k1 k2 kept_above_trans by blast
    next
      case F: False
      with fin obtain S t where "vwrite ''S'' (qS st2) k x = Inr S" "r = None" "st' = st2\<lparr>qS := S, qt := t\<rparr>"
        by (auto simp: ebind_Inr_iff)
      then have "kept_above k (qS st2) (qS st')" "r = None"
        using vwrite_kept_above[of "''S''" "qS st2" k x S k] by simp_all
      then show ?thesis using k1 k2 kept_above_trans by blast
    qed
  qed
qed

lemma qr_rounds_S:
  "qr_rounds fuel n eps k st = Inr (status, w, st') \<Longrightarrow>
     kept_above k (qS st) (qS st') \<and>
     (status = SUCCESS \<longrightarrow> 0 \<le> k \<and> k < int (length (qS st')) \<and> w = qS st' ! nat k)"
proof (induction fuel arbitrary: st)
  case 0
  then show ?case by simp
next
  case (Suc fuel)
  from Suc.prems obtain r st1 where r: "qr_round n eps k st = Inr (r, st1)"
    and rest: "(case r of Some (status, w) \<Rightarrow> Inr (status, w, st1)
                | None \<Rightarrow> qr_rounds fuel n eps k st1) = Inr (status, w, st')"
    by (auto split: sum.splits option.splits prod.splits)
  note one = qr_round_S[OF r]
  show ?case
  proof (cases r)
    case None
    then have "qr_rounds fuel n eps k st1 = Inr (status, w, st')" using rest by simp
    from Suc.IH[OF this] one show ?thesis using kept_above_trans by blast
  next
    case (Some sw)
    then have "r = Some (status, w)" "st' = st1" using rest by (auto split: prod.splits)
    then show ?thesis using one by auto
  qed
qed

lemma sign_sweep_S:
  assumes "sign_sweep n k w st = Inr st'" "0 \<le> k" "k < int (length (qS st))" "w = qS st ! nat k"
  shows "kept_above k (qS st) (qS st') \<and> (\<forall>j. int j < k \<longrightarrow> qS st' ! j = qS st ! j) \<and>
         - 1 / 10 ^ 13 \<le> qS st' ! nat k"
proof (cases "w < - 1 / 10 ^ 13")
  case True
  with assms(1) obtain S where S: "vwrite ''S'' (qS st) k (- w) = Inr S" and "qS st' = S"
    by (auto simp: sign_sweep_def ebind_Inr_iff)
  then show ?thesis using assms(2,3) True vwrite_Inr[OF S]
    by (auto simp: kept_above_def)
next
  case False
  then show ?thesis using assms by (auto simp: sign_sweep_def)
qed

lemma kept_above_length: "kept_above k S S' \<Longrightarrow> length S' = length S"
  by (simp add: kept_above_def)

lemma diagonalize_S:
  assumes "diagonalize fuel n eps ks st = Inr (status, st')" "sorted_wrt (>) ks"
  shows "length (qS st') = length (qS st) \<and>
         (status = SUCCESS \<longrightarrow>
            (\<forall>k\<in>set ks. - 1 / 10 ^ 13 \<le> qS st' ! k) \<and>
            (\<forall>j. (\<forall>k\<in>set ks. k < j) \<longrightarrow> qS st' ! j = qS st ! j))"
  using assms
proof (induction ks arbitrary: st)
  case Nil
  then show ?case by simp
next
  case (Cons k ks)
  from Cons.prems(1) obtain status1 w st1 where
    q: "qr_rounds fuel n eps (int k) st = Inr (status1, w, st1)"
    and rest: "(if status1 = FAILURE then Inr (FAILURE, st1)
                else ebind (sign_sweep n (int k) w st1) (\<lambda>st. diagonalize fuel n eps ks st)) = Inr (status, st')"
    by (auto simp: ebind_Inr_iff)
  note q1 = qr_rounds_S[OF q]
  show ?case
  proof (cases "status1 = FAILURE")
    case True
    then have "status = FAILURE" "st' = st1" using rest by auto
    then show ?thesis using q1 by (simp add: kept_above_def)
  next
    case False
    then have s1: "status1 = SUCCESS" by (cases status1) auto
    from rest False obtain st2 where sw: "sign_sweep n (int k) w st1 = Inr st2"
      and d: "diagonalize fuel n eps ks st2 = Inr (status, st')"
      by (auto simp: ebind_Inr_iff)
    from q1 s1 have kk: "int k < int (length (qS st1))" "w = qS st1 ! nat (int k)" by auto
    from sign_sweep_S[OF sw _ kk] have s2: "kept_above (int k) (qS st1) (qS st2)"
      "- 1 / 10 ^ 13 \<le> qS st2 ! k" by auto
    have sorted: "sorted_wrt (>) ks" and below: "\<forall>k'\<in>set ks. k' < k" using Cons.prems(2) by auto
    note IH = Cons.IH[OF d sorted]
    have len: "length (qS st') = length (qS st)"
      using IH q1 s2(1) by (simp add: kept_above_def)
    have "(\<forall>k'\<in>set (k # ks). - 1 / 10 ^ 13 \<le> qS st' ! k') \<and>
            (\<forall>j. (\<forall>k'\<in>set (k # ks). k' < j) \<longrightarrow> qS st' ! j = qS st ! j)" if "status = SUCCESS"
    proof (intro conjI ballI allI impI)
      fix k' assume "k' \<in> set (k # ks)"
      then consider "k' = k" | "k' \<in> set ks" by auto
      then show "- 1 / 10 ^ 13 \<le> qS st' ! k'"
      proof cases
        case 1
        have "qS st' ! k = qS st2 ! k" using IH that below by simp
        then show ?thesis using s2(2) 1 by simp
      next
        case 2
        then show ?thesis using IH that by simp
      qed
    next
      fix j assume j: "\<forall>k'\<in>set (k # ks). k' < j"
      then have "qS st' ! j = qS st2 ! j" using IH that by simp
      also have "\<dots> = qS st1 ! j" using s2(1) j by (simp add: kept_above_def)
      also have "\<dots> = qS st ! j" using q1 j by (simp add: kept_above_def)
      finally show "qS st' ! j = qS st ! j" .
    qed
    then show ?thesis using len by blast
  qed
qed

lemma sorted_wrt_rev_upt: "sorted_wrt (>) (rev [0..<n])"
  by (simp add: sorted_wrt_rev)

lemma select_step_Inr:
  assumes "select_step S i (g, j) = Inr gj'"
  shows "i < length S \<and> gj' = (if g < S ! i then (S ! i, i) else (g, j))"
  using assms by (auto simp: select_step_def ebind_Inr_iff vread_def split: if_splits)

lemma select_greatest_Inr:
  assumes sel: "select_greatest S k n = Inr gj" and kn: "k < n"
    and low: "\<forall>i. k \<le> i \<and> i < n \<longrightarrow> - 1 < S ! i"
  shows "k \<le> snd gj \<and> snd gj < n \<and> n \<le> length S \<and> fst gj = S ! snd gj \<and>
         (\<forall>i. k \<le> i \<and> i < n \<longrightarrow> S ! i \<le> fst gj)"
proof -
  let ?P = "\<lambda>i (gj :: real \<times> nat). i \<le> length S \<and>
      (if i = k then gj = (- 1, k) else k \<le> snd gj \<and> snd gj < i \<and> fst gj = S ! snd gj) \<and>
      (\<forall>i'. k \<le> i' \<and> i' < i \<longrightarrow> S ! i' \<le> fst gj)"
  have "?P n gj"
    using sel unfolding select_greatest_def
  proof (rule forM_upt_invariant[where P = ?P])
    show "k \<le> n" using kn by simp
    have "k \<le> length S"
    proof (rule ccontr)
      assume "\<not> k \<le> length S"
      then have "length S \<le> k" by simp
      then have "select_step S k (- 1, k) = Inl (OutOfRange ''S'' (int k))"
        by (simp add: select_step_def vread_def)
      moreover have "[k..<n] = k # [Suc k..<n]" using kn by (simp add: upt_conv_Cons)
      ultimately show False using sel by (simp add: select_greatest_def)
    qed
    then show "?P k (- 1, k)" by simp
  next
    fix i and s s' :: "real \<times> nat"
    assume ki: "k \<le> i" and "i < n" and P: "?P i s" and step: "select_step S i s = Inr s'"
    obtain g j where s: "s = (g, j)" by (cases s) auto
    from select_step_Inr[of S i g j s'] step s
    have il: "i < length S" and s': "s' = (if g < S ! i then (S ! i, i) else (g, j))" by auto
    have lowi: "- 1 < S ! i" using low ki \<open>i < n\<close> by simp
    show "?P (Suc i) s'"
    proof (cases "i = k")
      case True
      then have "g = - 1" "j = k" using P s by auto
      then have "s' = (S ! k, k)" using s' lowi True by simp
      then show ?thesis using il True by (auto simp: less_Suc_eq)
    next
      case False
      then have Pj: "k \<le> j" "j < i" "g = S ! j" "\<forall>i'. k \<le> i' \<and> i' < i \<longrightarrow> S ! i' \<le> g"
        using P s by auto
      show ?thesis
      proof (cases "g < S ! i")
        case True
        then have "s' = (S ! i, i)" using s' by simp
        then show ?thesis using il ki True Pj(4) by (auto simp: less_Suc_eq)
      next
        case F: False
        then have "s' = (g, j)" using s' by simp
        then show ?thesis using il ki F Pj by (auto simp: less_Suc_eq)
      qed
    qed
  qed
  then show ?thesis using kn by (auto split: if_splits)
qed

lemma sort_step_S:
  assumes step: "sort_step n k st = Inr st'" and kn: "k < n"
    and low: "\<forall>i. k \<le> i \<and> i < n \<longrightarrow> - 1 < qS st ! i"
  shows "\<exists>j. k \<le> j \<and> j < n \<and> n \<le> length (qS st) \<and>
             qS st' = (qS st)[j := qS st ! k, k := qS st ! j] \<and>
             (\<forall>i. k \<le> i \<and> i < n \<longrightarrow> qS st ! i \<le> qS st ! j)"
proof -
  from step obtain g j where sel: "select_greatest (qS st) k n = Inr (g, j)"
    and rest: "(if j \<noteq> k then
       ebind (vread ''S'' (qS st) (int k)) (\<lambda>Sk.
       ebind (vwrite ''S'' (qS st) (int j) Sk) (\<lambda>S.
       ebind (vwrite ''S'' S (int k) g) (\<lambda>S.
       ebind (swap_columns ''V'' n j k (qV st)) (\<lambda>V.
       ebind (swap_columns ''U'' n j k (qU st)) (\<lambda>U.
       Inr (st\<lparr>qS := S, qU := U, qV := V\<rparr>))))))
     else Inr st) = Inr st'"
    unfolding sort_step_def by (auto simp: ebind_Inr_iff)
  from select_greatest_Inr[OF sel kn low]
  have j: "k \<le> j" "j < n" "n \<le> length (qS st)" "g = qS st ! j"
    "\<forall>i. k \<le> i \<and> i < n \<longrightarrow> qS st ! i \<le> g" by auto
  have "qS st' = (qS st)[j := qS st ! k, k := qS st ! j]"
  proof (cases "j = k")
    case True
    then show ?thesis using rest by simp
  next
    case False
    with rest obtain Sk S1 S2 where "vread ''S'' (qS st) (int k) = Inr Sk"
      "vwrite ''S'' (qS st) (int j) Sk = Inr S1" "vwrite ''S'' S1 (int k) g = Inr S2" "qS st' = S2"
      by (auto simp: ebind_Inr_iff)
    then show ?thesis using j(4)
      by (auto dest!: vread_Inr vwrite_Inr)
  qed
  then show ?thesis using j by blast
qed

text \<open>
  The invariant of the sort: the length, the lower bound on the first \<open>n\<close> entries, and the
  first \<open>K\<close> entries in place, each at least every later entry among the first \<open>n\<close>.
\<close>

lemma sort_singular_values_S:
  assumes srt: "sort_singular_values n st = Inr st'"
    and low: "\<forall>i<n. lo \<le> qS st ! i" and lo: "- 1 < lo"
  shows "length (qS st') = length (qS st) \<and> (\<forall>i<n. lo \<le> qS st' ! i) \<and>
         (\<forall>a b. a \<le> b \<and> b < n \<longrightarrow> qS st' ! b \<le> qS st' ! a)"
proof -
  let ?I = "\<lambda>K s. length (qS s) = length (qS st) \<and> (\<forall>i<n. lo \<le> qS s ! i) \<and>
                  (\<forall>a b. a < K \<and> a \<le> b \<and> b < n \<longrightarrow> qS s ! b \<le> qS s ! a)"
  have "?I n st'"
    using srt unfolding sort_singular_values_def
  proof (rule forM_upt_invariant[where P = ?I])
    show "?I 0 st" using low by simp
    show "0 \<le> n" by simp
  next
    fix K s s'
    assume Kn: "K < n" and I: "?I K s" and step: "sort_step n K s = Inr s'"
    have low1: "\<forall>i. K \<le> i \<and> i < n \<longrightarrow> - 1 < qS s ! i"
    proof (intro allI impI)
      fix i assume "K \<le> i \<and> i < n"
      then have "lo \<le> qS s ! i" using I by simp
      then show "- 1 < qS s ! i" using lo by simp
    qed
    from sort_step_S[OF step Kn low1] obtain j where
      j: "K \<le> j" "j < n" "n \<le> length (qS s)"
      and S': "qS s' = (qS s)[j := qS s ! K, K := qS s ! j]"
      and mx: "\<forall>i. K \<le> i \<and> i < n \<longrightarrow> qS s ! i \<le> qS s ! j"
      by blast
    have at: "qS s' ! i = (if i = K then qS s ! j else if i = j then qS s ! K else qS s ! i)"
      if "i < n" for i
      using that j S' Kn by (auto simp: nth_list_update)
    have len: "length (qS s') = length (qS st)" using S' I by simp
    have jn: "j < n" "K < n" using j Kn by simp_all
    have lowS: "\<forall>i<n. lo \<le> qS s' ! i"
    proof (intro allI impI)
      fix i assume i: "i < n"
      have "lo \<le> qS s ! j" "lo \<le> qS s ! K" "lo \<le> qS s ! i" using I jn i by simp_all
      then show "lo \<le> qS s' ! i" using at[OF i] by simp
    qed
    have sorted_pre: "qS s ! b \<le> qS s ! a" if "a < K" "a \<le> b" "b < n" for a b
      using I that by blast
    have ord: "qS s' ! b \<le> qS s' ! a" if ab: "a < Suc K" "a \<le> b" "b < n" for a b
    proof (cases "a = K")
      case True
      have mb: "qS s ! b \<le> qS s ! j" using mx ab True by simp
      have mK: "qS s ! K \<le> qS s ! j" using mx jn by simp
      have "qS s' ! b \<le> qS s ! j" using at[OF ab(3)] mb mK by simp
      moreover have "qS s' ! a = qS s ! j" using at[OF jn(2)] True by simp
      ultimately show ?thesis by simp
    next
      case False
      then have aK: "a < K" using ab(1) by simp
      then have an: "a < n" using jn by simp
      have "a \<noteq> j" using aK j(1) by simp
      then have a': "qS s' ! a = qS s ! a" using at[OF an] aK by simp
      have 1: "qS s ! j \<le> qS s ! a" using sorted_pre[OF aK _ jn(1)] aK j(1) by simp
      have 2: "qS s ! K \<le> qS s ! a" using sorted_pre[OF aK _ jn(2)] aK by simp
      have 3: "qS s ! b \<le> qS s ! a" using sorted_pre[OF aK ab(2,3)] .
      have "qS s' ! b \<le> qS s ! a" using at[OF ab(3)] 1 2 3 by simp
      then show ?thesis using a' by simp
    qed
    show "?I (Suc K) s'"
    proof (intro conjI)
      show "length (qS s') = length (qS st)" by (rule len)
      show "\<forall>i<n. lo \<le> qS s' ! i" by (rule lowS)
      show "\<forall>a b. a < Suc K \<and> a \<le> b \<and> b < n \<longrightarrow> qS s' ! b \<le> qS s' ! a"
        using ord by simp
    qed
  qed
  then have "length (qS st') = length (qS st)" "\<forall>i<n. lo \<le> qS st' ! i"
    and fin: "\<forall>a b. a < n \<and> a \<le> b \<and> b < n \<longrightarrow> qS st' ! b \<le> qS st' ! a"
    by simp_all
  moreover have "\<forall>a b. a \<le> b \<and> b < n \<longrightarrow> qS st' ! b \<le> qS st' ! a"
  proof (intro allI impI)
    fix a b assume "a \<le> b \<and> b < n"
    then have "a < n \<and> a \<le> b \<and> b < n" by simp
    then show "qS st' ! b \<le> qS st' ! a" using fin by blast
  qed
  ultimately show ?thesis by simp
qed

declare bidiagonalize.simps [simp del]

lemma csvd_short_S:
  assumes "length S < min (GetRows A) (GetColumns A)"
  shows "csvd fuel A U S V = Inl (OutOfRange ''S'' (int (length S)))"
proof -
  let ?m = "max (GetRows A) (GetColumns A)" and ?n = "min (GetRows A) (GetColumns A)"
  have n: "length S < ?n" "?n \<noteq> 0" using assms by simp_all
  have i: "init_S_t ?n b c (S, t, e) = Inl (OutOfRange ''S'' (int (length S)))" for b c t e
    using init_S_t_short[OF n(1)] .
  show ?thesis
  proof (cases "GetRows A < GetColumns A")
    case True
    then have "?n = GetRows A" by simp
    then show ?thesis using True n i
      by (simp add: csvd_def Let_def split: prod.splits)
  next
    case False
    then have "?n = GetColumns A" by simp
    then show ?thesis using False n i
      by (simp add: csvd_def Let_def split: prod.splits)
  qed
qed

lemma csvd_unfold:
  fixes A :: cmatrix_t
  defines "n \<equiv> min (GetRows A) (GetColumns A)" and "m \<equiv> max (GetRows A) (GetColumns A)"
  assumes bd: "bidiagonalize m n 0 (if GetRows A < GetColumns A then dagger A else A,
                  replicate m 0, (replicate m 0)[0 := 0]) = (A2, b, c)"
  shows "csvd fuel A U S V =
    (if n = 0 then Inl (OutOfRange (if m = 0 then ''c'' else ''A'') 0)
     else ebind (init_S_t n b c (S, replicate m 0, 0)) (\<lambda>(S, t, eps).
          ebind (diagonalize fuel n (eps * eta) (rev [0..<n])
                   \<lparr>qS = S, qt = t, qU = identity m, qV = identity n\<rparr>) (\<lambda>(status, st).
          if status = FAILURE then Inr (FAILURE, A2, qU st, qS st, qV st)
          else ebind (sort_singular_values n st) (\<lambda>st.
               if GetRows A < GetColumns A
               then Inr (SUCCESS, A2, accumulate_V n A2 c (qV st), qS st, accumulate_U m n A2 b (qU st))
               else Inr (SUCCESS, A2, accumulate_U m n A2 b (qU st), qS st, accumulate_V n A2 c (qV st))))))"
proof (cases "GetRows A < GetColumns A")
  case True
  then have nm: "n = GetRows A" "m = GetColumns A" by (simp_all add: n_def m_def)
  show ?thesis using True bd unfolding nm
    by (simp add: csvd_def Let_def max_def cong: if_cong)
next
  case False
  then have nm: "n = GetColumns A" "m = GetRows A" by (simp_all add: n_def m_def)
  show ?thesis using False bd unfolding nm
    by (simp add: csvd_def Let_def max_def cong: if_cong)
qed

lemma csvd_Inr:
  assumes ret: "csvd fuel A U S V = Inr (status, A', U', S', V')"
  shows "\<exists>n m b c S1 t1 eps dstatus st.
           n = min (GetRows A) (GetColumns A) \<and> 0 < n \<and>
           init_S_t n b c (S, replicate m 0, 0) = Inr (S1, t1, eps) \<and>
           diagonalize fuel n (eps * eta) (rev [0..<n])
              \<lparr>qS = S1, qt = t1, qU = identity m, qV = identity n\<rparr> = Inr (dstatus, st) \<and>
           (if dstatus = FAILURE then status = FAILURE \<and> S' = qS st
            else status = SUCCESS \<and> (\<exists>st2. sort_singular_values n st = Inr st2 \<and> S' = qS st2))"
proof -
  define n where "n = min (GetRows A) (GetColumns A)"
  define m where "m = max (GetRows A) (GetColumns A)"
  obtain A2 b c where bd: "bidiagonalize m n 0 (if GetRows A < GetColumns A then dagger A else A,
                  replicate m 0, (replicate m 0)[0 := 0]) = (A2, b, c)"
    by (metis prod_cases3)
  note eq = csvd_unfold[OF bd[unfolded n_def m_def], of fuel U S V, folded n_def m_def]
  have n0: "0 < n" using ret eq by (cases "n = 0") auto
  with ret eq obtain S1 t1 eps where
    i: "init_S_t n b c (S, replicate m 0, 0) = Inr (S1, t1, eps)"
    and r1: "ebind (diagonalize fuel n (eps * eta) (rev [0..<n])
                   \<lparr>qS = S1, qt = t1, qU = identity m, qV = identity n\<rparr>) (\<lambda>(status, st).
          if status = FAILURE then Inr (FAILURE, A2, qU st, qS st, qV st)
          else ebind (sort_singular_values n st) (\<lambda>st.
               if GetRows A < GetColumns A
               then Inr (SUCCESS, A2, accumulate_V n A2 c (qV st), qS st, accumulate_U m n A2 b (qU st))
               else Inr (SUCCESS, A2, accumulate_U m n A2 b (qU st), qS st, accumulate_V n A2 c (qV st))))
          = Inr (status, A', U', S', V')"
    by (auto simp: ebind_Inr_iff)
  from r1 obtain dstatus st where
    d: "diagonalize fuel n (eps * eta) (rev [0..<n])
                   \<lparr>qS = S1, qt = t1, qU = identity m, qV = identity n\<rparr> = Inr (dstatus, st)"
    and r2: "(if dstatus = FAILURE then Inr (FAILURE, A2, qU st, qS st, qV st)
          else ebind (sort_singular_values n st) (\<lambda>st.
               if GetRows A < GetColumns A
               then Inr (SUCCESS, A2, accumulate_V n A2 c (qV st), qS st, accumulate_U m n A2 b (qU st))
               else Inr (SUCCESS, A2, accumulate_U m n A2 b (qU st), qS st, accumulate_V n A2 c (qV st))))
          = Inr (status, A', U', S', V')"
    by (auto simp: ebind_Inr_iff)
  have "if dstatus = FAILURE then status = FAILURE \<and> S' = qS st
            else status = SUCCESS \<and> (\<exists>st2. sort_singular_values n st = Inr st2 \<and> S' = qS st2)"
  proof (cases "dstatus = FAILURE")
    case True
    then show ?thesis using r2 by auto
  next
    case False
    show ?thesis using r2 False by (auto simp: ebind_Inr_iff split: if_splits)
  qed
  then show ?thesis using n_def n0 i d by blast
qed

lemma mread_Inr: "mread nm M i j = Inr x \<Longrightarrow>
    0 \<le> i \<and> i < int (GetRows M) \<and> 0 \<le> j \<and> j < int (GetColumns M) \<and> x = elem M (nat i) (nat j)"
  by (simp add: mread_def split: if_splits)

lemma mwrite_Inr: "mwrite nm M i j x = Inr M' \<Longrightarrow>
    0 \<le> i \<and> i < int (GetRows M) \<and> 0 \<le> j \<and> j < int (GetColumns M) \<and> M' = mput M (nat i) (nat j) x"
  by (simp add: mwrite_def split: if_splits)

lemma negate_entry_Inr:
  assumes "negate_entry k j V = Inr V'"
  shows "0 \<le> k \<and> V' = mput V j (nat k) (- elem V j (nat k))"
  using assms unfolding negate_entry_def
  by (auto simp: ebind_Inr_iff dest!: mread_Inr mwrite_Inr)

lemma negate_column:
  assumes "forM [0..<n] (negate_entry k) V = Inr V'"
  shows "GetRows V' = GetRows V \<and> GetColumns V' = GetColumns V \<and>
         (\<forall>r c. elem V' r c = (if r < n \<and> int c = k then - elem V r c else elem V r c))"
  using assms
proof (rule forM_upt_invariant[where P = "\<lambda>i M. GetRows M = GetRows V \<and> GetColumns M = GetColumns V \<and>
         (\<forall>r c. elem M r c = (if r < i \<and> int c = k then - elem V r c else elem V r c))"])
  show "GetRows V = GetRows V \<and> GetColumns V = GetColumns V \<and>
         (\<forall>r c. elem V r c = (if r < 0 \<and> int c = k then - elem V r c else elem V r c))" by simp
  show "0 \<le> n" by simp
next
  fix i M M'
  assume I: "GetRows M = GetRows V \<and> GetColumns M = GetColumns V \<and>
         (\<forall>r c. elem M r c = (if r < i \<and> int c = k then - elem V r c else elem V r c))"
    and step: "negate_entry k i M = Inr M'"
  from negate_entry_Inr[OF step] have k: "0 \<le> k" and M': "M' = mput M i (nat k) (- elem M i (nat k))"
    by simp_all
  show "GetRows M' = GetRows V \<and> GetColumns M' = GetColumns V \<and>
         (\<forall>r c. elem M' r c = (if r < Suc i \<and> int c = k then - elem V r c else elem V r c))"
    using I k unfolding M' by (auto simp: mput_def less_Suc_eq)
qed

lemma swap_entries_Inr:
  assumes "swap_entries nm j k i M = Inr M'"
  shows "M' = mput (mput M i j (elem M i k)) i k (elem M i j)"
  using assms unfolding swap_entries_def
  by (auto simp: ebind_Inr_iff dest!: mread_Inr mwrite_Inr)

lemma swap_columns_Inr:
  assumes "swap_columns nm n j k M = Inr M'"
  shows "GetRows M' = GetRows M \<and> GetColumns M' = GetColumns M \<and>
         (\<forall>r c. elem M' r c = (if r < n \<and> c = k then elem M r j
                                else if r < n \<and> c = j then elem M r k else elem M r c))"
  using assms unfolding swap_columns_def
proof (rule forM_upt_invariant[where P = "\<lambda>i N. GetRows N = GetRows M \<and> GetColumns N = GetColumns M \<and>
         (\<forall>r c. elem N r c = (if r < i \<and> c = k then elem M r j
                                else if r < i \<and> c = j then elem M r k else elem M r c))"])
  show "GetRows M = GetRows M \<and> GetColumns M = GetColumns M \<and>
         (\<forall>r c. elem M r c = (if r < 0 \<and> c = k then elem M r j
                                else if r < 0 \<and> c = j then elem M r k else elem M r c))" by simp
  show "0 \<le> n" by simp
next
  fix i N N'
  assume I: "GetRows N = GetRows M \<and> GetColumns N = GetColumns M \<and>
         (\<forall>r c. elem N r c = (if r < i \<and> c = k then elem M r j
                                else if r < i \<and> c = j then elem M r k else elem M r c))"
    and step: "swap_entries nm j k i N = Inr N'"
  show "GetRows N' = GetRows M \<and> GetColumns N' = GetColumns M \<and>
         (\<forall>r c. elem N' r c = (if r < Suc i \<and> c = k then elem M r j
                                else if r < Suc i \<and> c = j then elem M r k else elem M r c))"
    using I unfolding swap_entries_Inr[OF step] by (auto simp: mput_def less_Suc_eq)
qed

lemma csvd_length_S:
  assumes ret: "csvd fuel A U S V = Inr (status, A', U', S', V')"
  shows "length S' = length S \<and> min (GetRows A) (GetColumns A) \<le> length S"
proof -
  from csvd_Inr[OF ret] obtain n m b c S1 t1 eps dstatus st where
    n: "n = min (GetRows A) (GetColumns A)"
    and i: "init_S_t n b c (S, replicate m 0, 0) = Inr (S1, t1, eps)"
    and d: "diagonalize fuel n (eps * eta) (rev [0..<n])
              \<lparr>qS = S1, qt = t1, qU = identity m, qV = identity n\<rparr> = Inr (dstatus, st)"
    and fin: "if dstatus = FAILURE then status = FAILURE \<and> S' = qS st
            else status = SUCCESS \<and> (\<exists>st2. sort_singular_values n st = Inr st2 \<and> S' = qS st2)"
    by blast
  from init_S_t_Inr[OF i] have l1: "length S1 = length S" "n \<le> length S" by simp_all
  from diagonalize_S[OF d sorted_wrt_rev_upt] have l2: "length (qS st) = length S1" by simp
  have "length S' = length (qS st)"
  proof (cases "dstatus = FAILURE")
    case True
    then show ?thesis using fin by simp
  next
    case False
    then have ds: "dstatus = SUCCESS" by (cases dstatus) auto
    from fin False obtain st2 where s: "sort_singular_values n st = Inr st2" "S' = qS st2" by auto
    have low: "\<forall>i<n. - 1 / 10 ^ 13 \<le> qS st ! i"
      using diagonalize_S[OF d sorted_wrt_rev_upt] ds by simp
    from sort_singular_values_S[OF s(1) low] s(2) show ?thesis by simp
  qed
  then show ?thesis using l1 l2 n by simp
qed

lemma csvd_sorted_S:
  assumes ret: "csvd fuel A U S V = Inr (SUCCESS, A', U', S', V')"
    and n: "n = min (GetRows A) (GetColumns A)"
  shows "sorted_wrt (\<ge>) (take n S') \<and> (\<forall>i<n. - 1 / 10 ^ 13 \<le> S' ! i)"
proof -
  from csvd_Inr[OF ret] n obtain m b c S1 t1 eps dstatus st where
    i: "init_S_t n b c (S, replicate m 0, 0) = Inr (S1, t1, eps)"
    and d: "diagonalize fuel n (eps * eta) (rev [0..<n])
              \<lparr>qS = S1, qt = t1, qU = identity m, qV = identity n\<rparr> = Inr (dstatus, st)"
    and fin: "if dstatus = FAILURE then SUCCESS = FAILURE \<and> S' = qS st
            else (\<exists>st2. sort_singular_values n st = Inr st2 \<and> S' = qS st2)"
    by auto
  from fin have ds: "dstatus = SUCCESS" by (cases dstatus) auto
  with fin obtain st2 where s: "sort_singular_values n st = Inr st2" "S' = qS st2" by auto
  have low: "\<forall>i<n. - 1 / 10 ^ 13 \<le> qS st ! i"
    using diagonalize_S[OF d sorted_wrt_rev_upt] ds by simp
  from sort_singular_values_S[OF s(1) low] s(2)
  have lowS: "\<forall>i<n. - 1 / 10 ^ 13 \<le> S' ! i"
    and ord: "\<forall>a b. a \<le> b \<and> b < n \<longrightarrow> S' ! b \<le> S' ! a" by simp_all
  have "sorted_wrt (\<ge>) (take n S')"
    unfolding sorted_wrt_iff_nth_less using ord by simp
  then show ?thesis using lowS by simp
qed

lemmas csvd_eval = csvd_def init_S_t_def init_step_def vwrite_def vread_def mread_def mwrite_def
  bidiagonalize.simps column_step_def row_step_def apply_column_reflector_def apply_row_reflector_def
  qr_round_def deflation_scan.simps cancellation.simps cancellation_step_def chase.simps chase_step_def
  sign_sweep_def negate_entry_def sort_singular_values_def sort_step_def select_greatest_def
  select_step_def swap_columns_def swap_entries_def
  accumulate_U_def accumulate_V_def identity_def rotate_columns_def
  almost_equal_def zero_threshold_def eta_def tol_def norm_c_def cmatrix_def mput_def dagger_def

lemma sqrt_4: "sqrt 4 = 2"
  using real_sqrt_abs[of 2] by simp

text \<open>
  Claim C10.  \<^const>\<open>csvd\<close> never resizes \<open>S\<close>: it writes \<open>S[k]\<close> for every \<open>k\<close> below the
  smaller dimension of the matrix, so a call with a shorter \<open>S\<close> writes past its end, at
  index \<open>|S|\<close>; and whenever the call returns, with either status, \<open>S\<close> has the length
  that the caller supplied, which is at least the smaller dimension and need not equal it.
\<close>

theorem csvd_keeps_length_of_S:
  "(length S < min (GetRows A) (GetColumns A)
      \<longrightarrow> csvd fuel A U S V = Inl (OutOfRange ''S'' (int (length S)))) \<and>
   (csvd fuel A U S V = Inr (status, A', U', S', V')
      \<longrightarrow> length S' = length S \<and> min (GetRows A) (GetColumns A) \<le> length S)"
  using csvd_short_S[of S A fuel U V] csvd_length_S[of fuel A U S V status A' U' S' V'] by blast

text \<open>
  The theorem on the \<open>1 \<times> 1\<close> matrix \<open>(1)\<close>: an empty \<open>S\<close> is written out of range at index
  0, and \<open>S = [0, 2]\<close> comes back as \<open>[1, 2]\<close>, of length 2 and not 1.
\<close>

theorem csvd_keeps_length_of_S_witness:
  "csvd 1 (mput (cmatrix 1 1) 0 0 1) (cmatrix 0 0) [] (cmatrix 0 0) = Inl (OutOfRange ''S'' 0) \<and>
   map_sum id (\<lambda>(st, A, U, S, V). (st, S))
      (csvd 1 (mput (cmatrix 1 1) 0 0 1) (cmatrix 0 0) [0, 2] (cmatrix 0 0)) = Inr (SUCCESS, [1, 2]) \<and>
   length [1, 2 :: real] = length [0, 2 :: real] \<and>
   min (GetRows (mput (cmatrix 1 1) 0 0 1)) (GetColumns (mput (cmatrix 1 1) 0 0 1)) = 1"
proof -
  have short: "length ([] :: real list) < min (GetRows (mput (cmatrix 1 1) 0 0 1)) (GetColumns (mput (cmatrix 1 1) 0 0 1))"
    by (simp add: mput_def cmatrix_def)
  have run: "map_sum id (\<lambda>(st, A, U, S, V). (st, S))
      (csvd 1 (mput (cmatrix 1 1) 0 0 1) (cmatrix 0 0) [0, 2] (cmatrix 0 0)) = Inr (SUCCESS, [1, 2])"
    by (simp add: csvd_eval Let_def)
  from csvd_keeps_length_of_S[of "[]" "mput (cmatrix 1 1) 0 0 1" 1 "cmatrix 0 0" "cmatrix 0 0"] short
  have "csvd 1 (mput (cmatrix 1 1) 0 0 1) (cmatrix 0 0) [] (cmatrix 0 0) = Inl (OutOfRange ''S'' 0)"
    by simp
  then show ?thesis using run by (simp add: mput_def cmatrix_def)
qed

text \<open>
  Claim C7 on the code.  On a zero matrix every column and row is skipped in phase 1, so
  \<open>eps = 0\<close>; no test \<open>|t[l]| < eps\<close> can hold, the scan reaches \<open>l = 0\<close> with the first branch
  not taken, and the comparison of the second branch reads \<open>S[-1]\<close>.
\<close>

theorem csvd_zero_matrix_reads_S_before_its_start:
  "deflation_scan [0] [0] 0 0 = Inl (OutOfRange ''S'' (- 1)) \<and>
   csvd (Suc fuel) (cmatrix 1 1) U [0] V = Inl (OutOfRange ''S'' (- 1)) \<and>
   csvd (Suc fuel) (cmatrix 2 2) U [0, 0] V = Inl (OutOfRange ''S'' (- 1))"
proof (intro conjI)
  show "deflation_scan [0] [0] 0 0 = Inl (OutOfRange ''S'' (- 1))"
    by (simp add: deflation_scan.simps vread_def)
  show "csvd (Suc fuel) (cmatrix 1 1) U [0] V = Inl (OutOfRange ''S'' (- 1))"
    by (simp add: csvd_eval Let_def)
  show "csvd (Suc fuel) (cmatrix 2 2) U [0, 0] V = Inl (OutOfRange ''S'' (- 1))"
    by (simp add: csvd_eval Let_def numeral_2_eq_2)
qed

lemma deflation_scan_safe:
  assumes "0 < eps" "t ! 0 = 0" "0 \<le> l" "l < int (length t)" "l \<le> int (length S)"
  shows "\<exists>l' jump. deflation_scan S t eps l = Inr (l', jump) \<and> 0 \<le> l' \<and> l' \<le> l \<and> (\<not> jump \<longrightarrow> 1 \<le> l')"
  using assms(3-5)
proof (induction "nat l" arbitrary: l)
  case 0
  then have l: "l = 0" by simp
  have "vread ''t'' t 0 = Inr 0" using 0 assms(2) l by (simp add: vread_def)
  then have "deflation_scan S t eps 0 = Inr (0, True)"
    using assms(1) by (subst deflation_scan.simps) simp
  then show ?case using l by auto
next
  case (Suc d)
  then have l: "0 < l" "nat l < length t" "nat (l - 1) < length S" by auto
  have rt: "vread ''t'' t l = Inr (t ! nat l)" using l by (simp add: vread_def)
  have rs: "vread ''S'' S (l - 1) = Inr (S ! nat (l - 1))" using l Suc.prems by (simp add: vread_def)
  show ?case
  proof (cases "\<bar>t ! nat l\<bar> < eps")
    case True
    then have "deflation_scan S t eps l = Inr (l, True)"
      using rt l by (subst deflation_scan.simps) simp
    then show ?thesis using l by auto
  next
    case False
    show ?thesis
    proof (cases "\<bar>S ! nat (l - 1)\<bar> < eps")
      case True
      then have "deflation_scan S t eps l = Inr (l, False)"
        using rt rs l False by (subst deflation_scan.simps) simp
      then show ?thesis using l by auto
    next
      case F2: False
      have step: "deflation_scan S t eps l = deflation_scan S t eps (l - 1)"
        using rt rs l False F2 by (subst deflation_scan.simps) simp
      have "d = nat (l - 1)" using Suc.hyps(2) by simp
      from Suc.hyps(1)[OF this] Suc.prems l
      obtain l' jump where "deflation_scan S t eps (l - 1) = Inr (l', jump)" "0 \<le> l'" "l' \<le> l - 1"
        "\<not> jump \<longrightarrow> 1 \<le> l'" by auto
      then show ?thesis using step by auto
    qed
  qed
qed

lemma sign_sweep_effect:
  assumes "sign_sweep n k w st = Inr st'"
  shows "if w < - 1 / 10 ^ 13
         then qS st' = (qS st)[nat k := - w] \<and> column_negated n k (qV st) (qV st') \<and> qU st' = qU st
         else st' = st"
proof (cases "w < - 1 / 10 ^ 13")
  case True
  with assms obtain S V where S: "vwrite ''S'' (qS st) k (- w) = Inr S"
    and V: "forM [0..<n] (negate_entry k) (qV st) = Inr V" and st': "st' = st\<lparr>qS := S, qV := V\<rparr>"
    by (auto simp: sign_sweep_def ebind_Inr_iff)
  from negate_column[OF V] have "column_negated n k (qV st) V" by (simp add: column_negated_def)
  then show ?thesis using True vwrite_Inr[OF S] st' by simp
next
  case False
  then show ?thesis using assms by (simp add: sign_sweep_def)
qed

lemma sort_step_lockstep:
  assumes step: "sort_step n k st = Inr st'" and kn: "k < n"
    and low: "\<forall>i. k \<le> i \<and> i < n \<longrightarrow> - 1 < qS st ! i"
  shows "\<exists>j. k \<le> j \<and> j < n \<and> (\<forall>i. k \<le> i \<and> i < n \<longrightarrow> qS st ! i \<le> qS st ! j) \<and>
             qS st' = (qS st)[j := qS st ! k, k := qS st ! j] \<and>
             columns_swapped n j k (qV st) (qV st') \<and> columns_swapped n j k (qU st) (qU st')"
proof -
  from step obtain g j where sel: "select_greatest (qS st) k n = Inr (g, j)"
    and rest: "(if j \<noteq> k then
       ebind (vread ''S'' (qS st) (int k)) (\<lambda>Sk.
       ebind (vwrite ''S'' (qS st) (int j) Sk) (\<lambda>S.
       ebind (vwrite ''S'' S (int k) g) (\<lambda>S.
       ebind (swap_columns ''V'' n j k (qV st)) (\<lambda>V.
       ebind (swap_columns ''U'' n j k (qU st)) (\<lambda>U.
       Inr (st\<lparr>qS := S, qU := U, qV := V\<rparr>))))))
     else Inr st) = Inr st'"
    unfolding sort_step_def by (auto simp: ebind_Inr_iff)
  from select_greatest_Inr[OF sel kn low]
  have j: "k \<le> j" "j < n" "n \<le> length (qS st)" "g = qS st ! j"
    "\<forall>i. k \<le> i \<and> i < n \<longrightarrow> qS st ! i \<le> g" by auto
  have "qS st' = (qS st)[j := qS st ! k, k := qS st ! j] \<and>
        columns_swapped n j k (qV st) (qV st') \<and> columns_swapped n j k (qU st) (qU st')"
  proof (cases "j = k")
    case True
    then show ?thesis using rest by (simp add: columns_swapped_def)
  next
    case False
    with rest obtain Sk S1 S2 V U where "vread ''S'' (qS st) (int k) = Inr Sk"
      "vwrite ''S'' (qS st) (int j) Sk = Inr S1" "vwrite ''S'' S1 (int k) g = Inr S2"
      and V: "swap_columns ''V'' n j k (qV st) = Inr V"
      and U: "swap_columns ''U'' n j k (qU st) = Inr U"
      and st': "st' = st\<lparr>qS := S2, qU := U, qV := V\<rparr>"
      by (auto simp: ebind_Inr_iff)
    then have "qS st' = (qS st)[j := qS st ! k, k := qS st ! j]" using j(4)
      by (auto dest!: vread_Inr vwrite_Inr)
    moreover have "columns_swapped n j k (qV st) (qV st')"
      using swap_columns_Inr[OF V] st' by (simp add: columns_swapped_def)
    moreover have "columns_swapped n j k (qU st) (qU st')"
      using swap_columns_Inr[OF U] st' by (simp add: columns_swapped_def)
    ultimately show ?thesis by simp
  qed
  then show ?thesis using j by blast
qed

subsection \<open>The spectrum returned\<close>

text \<open>
  With a vector \<open>S\<close> of as many entries as the smaller dimension of \<open>A\<close>: whenever \<^const>\<open>csvd\<close>
  returns \<open>SUCCESS\<close>, \<open>S\<close> is in non-increasing order and each of its entries is at least
  \<open>-10\<^sup>-\<^sup>1\<^sup>3\<close>, the bound under which the sign sweep negates.
\<close>

lemma csvd_sorted_whole_S:
  assumes ret: "csvd fuel A U S V = Inr (SUCCESS, A', U', S', V')"
    and len: "length S = min (GetRows A) (GetColumns A)"
  shows "sorted_wrt (\<ge>) S' \<and> (\<forall>i<length S'. - 1 / 10 ^ 13 \<le> S' ! i)"
proof -
  from csvd_length_S[OF ret] len have l: "length S' = min (GetRows A) (GetColumns A)" by simp
  from csvd_sorted_S[OF ret refl] show ?thesis unfolding l[symmetric] by simp
qed

text \<open>
  What is proved of the sign sweep and of the sort.  With \<open>n\<close> the smaller dimension of \<open>A\<close>:
  whenever \<^const>\<open>csvd\<close> returns \<open>SUCCESS\<close>, the first \<open>n\<close> entries of \<open>S\<close> are in non-increasing
  order and each is at least \<open>-10\<^sup>-\<^sup>1\<^sup>3\<close>.  The sign sweep, run with \<open>w = S[k]\<close>, does nothing
  unless \<open>w < -10\<^sup>-\<^sup>1\<^sup>3\<close>, and then sets \<open>S[k] = -w\<close> and negates column \<open>k\<close> of \<open>V\<close> over the rows
  \<open>0..<n\<close>.  A step of the selection sort picks an index \<open>j \<ge> k\<close> of a greatest entry among
  \<open>S[k..<n]\<close> and exchanges \<open>S[j]\<close> with \<open>S[k]\<close> together with the columns \<open>j\<close> and \<open>k\<close> of \<open>V\<close>
  and of \<open>U\<close>, over the rows \<open>0..<n\<close>.  Whether an entry in \<open>[-10\<^sup>-\<^sup>1\<^sup>3, 0)\<close> can be returned is
  left open: the sweep would leave it as it is.
\<close>

lemma csvd_spectrum:
  "(csvd fuel A U S V = Inr (SUCCESS, A', U', S', V') \<longrightarrow>
      sorted_wrt (\<ge>) (take (min (GetRows A) (GetColumns A)) S') \<and>
      (\<forall>i<min (GetRows A) (GetColumns A). - 1 / 10 ^ 13 \<le> S' ! i)) \<and>
   (sign_sweep n k w st = Inr st' \<longrightarrow>
      (if w < - 1 / 10 ^ 13
       then qS st' = (qS st)[nat k := - w] \<and> column_negated n k (qV st) (qV st') \<and> qU st' = qU st
       else st' = st)) \<and>
   (sort_step n k0 st0 = Inr st1 \<and> k0 < n \<and> (\<forall>i. k0 \<le> i \<and> i < n \<longrightarrow> - 1 < qS st0 ! i) \<longrightarrow>
      (\<exists>j. k0 \<le> j \<and> j < n \<and> (\<forall>i. k0 \<le> i \<and> i < n \<longrightarrow> qS st0 ! i \<le> qS st0 ! j) \<and>
           qS st1 = (qS st0)[j := qS st0 ! k0, k0 := qS st0 ! j] \<and>
           columns_swapped n j k0 (qV st0) (qV st1) \<and> columns_swapped n j k0 (qU st0) (qU st1)))"
proof -
  have 1: "csvd fuel A U S V = Inr (SUCCESS, A', U', S', V') \<longrightarrow>
      sorted_wrt (\<ge>) (take (min (GetRows A) (GetColumns A)) S') \<and>
      (\<forall>i<min (GetRows A) (GetColumns A). - 1 / 10 ^ 13 \<le> S' ! i)"
    using csvd_sorted_S[of fuel A U S V A' U' S' V', OF _ refl] by blast
  have 2: "sign_sweep n k w st = Inr st' \<longrightarrow>
      (if w < - 1 / 10 ^ 13
       then qS st' = (qS st)[nat k := - w] \<and> column_negated n k (qV st) (qV st') \<and> qU st' = qU st
       else st' = st)"
    using sign_sweep_effect[of n k w st st'] by blast
  have 3: "sort_step n k0 st0 = Inr st1 \<and> k0 < n \<and> (\<forall>i. k0 \<le> i \<and> i < n \<longrightarrow> - 1 < qS st0 ! i) \<longrightarrow>
      (\<exists>j. k0 \<le> j \<and> j < n \<and> (\<forall>i. k0 \<le> i \<and> i < n \<longrightarrow> qS st0 ! i \<le> qS st0 ! j) \<and>
           qS st1 = (qS st0)[j := qS st0 ! k0, k0 := qS st0 ! j] \<and>
           columns_swapped n j k0 (qV st0) (qV st1) \<and> columns_swapped n j k0 (qU st0) (qU st1))"
    using sort_step_lockstep[of n k0 st0 st1] by blast
  from 1 2 3 show ?thesis by (intro conjI)
qed

text \<open>
  The theorem on the matrix \<open>diag(1, 2)\<close>, which comes back with \<open>S = [2, 1]\<close>, on a sign sweep
  of \<open>S = [-1]\<close>, and on the first step of the sort of \<open>S = [1, 2]\<close>.
\<close>

lemma csvd_spectrum_example:
  "map_sum id (\<lambda>(st, A, U, S, V). (st, S))
     (csvd 1 (mput (mput (cmatrix 2 2) 0 0 1) 1 1 2) (cmatrix 0 0) [0, 0] (cmatrix 0 0)) = Inr (SUCCESS, [2, 1]) \<and>
   sorted_wrt (\<ge>) (take 2 [2, 1 :: real]) \<and>
   map_sum id qS (sign_sweep 1 0 (- 1) \<lparr>qS = [- 1], qt = [0], qU = identity 1, qV = identity 1\<rparr>) = Inr [1] \<and>
   map_sum id qS (sort_step 2 0 \<lparr>qS = [1, 2], qt = [0, 0], qU = identity 2, qV = identity 2\<rparr>) = Inr [2, 1]"
proof -
  let ?A = "mput (mput (cmatrix 2 2) 0 0 1) 1 1 2"
  have run: "map_sum id (\<lambda>(st, A, U, S, V). (st, S))
     (csvd 1 ?A (cmatrix 0 0) [0, 0] (cmatrix 0 0)) = Inr (SUCCESS, [2, 1])"
    by (simp add: csvd_eval Let_def numeral_2_eq_2 sqrt_4)
  then obtain A' U' V' where ret: "csvd 1 ?A (cmatrix 0 0) [0, 0] (cmatrix 0 0) = Inr (SUCCESS, A', U', [2, 1], V')"
    by (cases "csvd 1 ?A (cmatrix 0 0) [0, 0] (cmatrix 0 0)") auto
  have dims: "min (GetRows ?A) (GetColumns ?A) = 2" by (simp add: mput_def cmatrix_def)
  from csvd_spectrum[where fuel = 1 and A = ?A and U = "cmatrix 0 0" and S = "[0, 0]" and V = "cmatrix 0 0"
      and A' = A' and U' = U' and S' = "[2, 1]" and V' = V', THEN conjunct1] ret dims
  have sorted: "sorted_wrt (\<ge>) (take 2 [2, 1 :: real])" by simp
  let ?st = "\<lparr>qS = [- 1], qt = [0], qU = identity 1, qV = identity 1\<rparr>"
  obtain st' where sw: "sign_sweep 1 0 (- 1) ?st = Inr st'"
    by (simp add: sign_sweep_def vwrite_def negate_entry_def mread_def mwrite_def identity_def mput_def)
  from csvd_spectrum[where n = 1 and k = 0 and w = "- 1" and st = ?st and st' = st',
      THEN conjunct2, THEN conjunct1] sw
  have "qS st' = [1]" by simp
  then have sign: "map_sum id qS (sign_sweep 1 0 (- 1) ?st) = Inr [1]" using sw by simp
  let ?s0 = "\<lparr>qS = [1, 2], qt = [0, 0], qU = identity 2, qV = identity 2\<rparr>"
  obtain st1 where so: "sort_step 2 0 ?s0 = Inr st1"
    by (simp add: sort_step_def select_greatest_def select_step_def vread_def vwrite_def
        swap_columns_def swap_entries_def mread_def mwrite_def identity_def mput_def numeral_2_eq_2)
  have low: "\<forall>i. 0 \<le> i \<and> i < (2::nat) \<longrightarrow> - 1 < qS ?s0 ! i"
    by (simp add: less_Suc_eq numeral_2_eq_2)
  from csvd_spectrum[where n = 2 and ?k0.0 = 0 and ?st0.0 = ?s0 and ?st1.0 = st1,
      THEN conjunct2, THEN conjunct2] so low
  obtain j where j: "j < 2" "\<forall>i. 0 \<le> i \<and> i < 2 \<longrightarrow> qS ?s0 ! i \<le> qS ?s0 ! j"
    "qS st1 = (qS ?s0)[j := qS ?s0 ! 0, 0 := qS ?s0 ! j]" by auto
  have "j = 1"
  proof (rule ccontr)
    assume "j \<noteq> 1"
    then have "j = 0" using j(1) by simp
    then show False using j(2) by (auto simp: numeral_2_eq_2)
  qed
  then have "qS st1 = [2, 1]" using j(3) by simp
  then have sort: "map_sum id qS (sort_step 2 0 ?s0) = Inr [2, 1]" using so by simp
  from run sorted sign sort show ?thesis by simp
qed

text \<open>
  With a vector \<open>S\<close> longer than the smaller dimension: on the \<open>1 \<times> 1\<close> matrix \<open>(1)\<close> the call
  succeeds and writes \<open>S[0]\<close> only, so \<open>S = [0, 2]\<close> comes back as \<open>[1, 2]\<close> and \<open>S = [0, -3]\<close> as
  \<open>[1, -3]\<close>.
\<close>

lemma csvd_longer_S_example:
  "map_sum id (\<lambda>(st, A, U, S, V). (st, S))
      (csvd 1 (mput (cmatrix 1 1) 0 0 1) (cmatrix 0 0) [0, 2] (cmatrix 0 0)) = Inr (SUCCESS, [1, 2]) \<and>
   \<not> sorted_wrt (\<ge>) [1, 2 :: real] \<and>
   map_sum id (\<lambda>(st, A, U, S, V). (st, S))
      (csvd 1 (mput (cmatrix 1 1) 0 0 1) (cmatrix 0 0) [0, - 3] (cmatrix 0 0)) = Inr (SUCCESS, [1, - 3]) \<and>
   \<not> (0 :: real) \<le> [1, - 3] ! 1"
  by (simp add: csvd_eval Let_def)


section \<open>The retry wrapper on the kernel \<^verbatim>\<open>csvd\<close>\<close>

text \<open>
  On the matrix with the row \<open>(s, 2s)\<close> over a row of zeros, \<open>s \<ge> 1\<close>, the first phase gives
  \<open>b = (s, 0)\<close> and \<open>c = (0, 2s)\<close>.  In the first round at \<open>k = 1\<close> the shift is \<open>f = -4s\<close>, the
  first rotation of the chase has \<open>cs = -2 sn\<close>, so \<open>f = x cs + g sn = s cs + 2s sn = 0\<close>, and
  \<open>h = y sn = 0\<close> since \<open>S[1] = 0\<close>: \<open>w = 0\<close> and line 466 returns \<open>FAILURE\<close>, at every scale.
\<close>

lemma cancelling_column_step_0:
  assumes s: "1 \<le> s"
  shows "column_step 2 2 0 (s * s) (cancelling_matrix s e, [0, 0]) = (cancelling_matrix_col s e, [s, 0])"
proof -
  have pos: "0 < s" "s \<noteq> 0" "\<bar>s\<bar> = s" using s by simp_all
  have "1 * 1 \<le> s * s" using s by (intro mult_mono) simp_all
  then have t1: "tol < s * s" by (simp add: tol_def)
  have az: "\<not> almost_equal s 0 zero_threshold" using s by (simp add: almost_equal_def zero_threshold_def)
  show ?thesis
    unfolding column_step_def cancelling_matrix_def cancelling_matrix_col_def
    apply (simp add: t1 Let_def az pos numeral_2_eq_2 apply_column_reflector_def mput_def)
    apply (simp add: fun_eq_iff)
    done
qed

lemma cancelling_row_step_0:
  assumes s: "1 \<le> s"
  shows "row_step 2 2 0 (2 * s * (2 * s)) (cancelling_matrix_col s e, [0, 0])
           = (cancelling_matrix_row s e, [0, 2 * s])"
proof -
  have pos: "0 < s" "s \<noteq> 0" "\<bar>s\<bar> = s" using s by simp_all
  have "1 * 1 \<le> (2 * s) * (2 * s)" using s by (intro mult_mono) simp_all
  then have t1: "tol < 2 * s * (2 * s)" by (simp add: tol_def)
  have az: "\<not> almost_equal (2 * s) 0 zero_threshold" using s by (simp add: almost_equal_def zero_threshold_def)
  have sq: "sqrt (2 * s * (2 * s)) = 2 * s" unfolding real_sqrt_abs2 using pos by simp
  show ?thesis
    unfolding row_step_def cancelling_matrix_col_def cancelling_matrix_row_def
    apply (simp only: prod.case Let_def t1 if_True sq)
    apply (simp add: az pos numeral_2_eq_2 apply_row_reflector_def mput_def)
    apply (simp add: fun_eq_iff)
    done
qed

lemma cancelling_column_step_1:
  assumes "e * e \<le> tol"
  shows "column_step 2 2 (Suc 0) (e * e) (cancelling_matrix_row s e, [s, 0]) = (cancelling_matrix_row s e, [s, 0])"
  using assms by (simp add: column_step_def)

lemma cancelling_bidiagonalize_head:
  assumes s: "1 \<le> s"
  shows "bidiagonalize 2 2 0 (cancelling_matrix s e, [0, 0], [0, 0])
       = bidiagonalize 2 2 (0 + 1) (cancelling_matrix_row s e, [s, 0], [0, 2 * s])"
proof -
  have z0: "(\<Sum>i\<leftarrow>[0..<2]. norm_c (elem (cancelling_matrix s e) i 0)) = s * s"
    by (simp add: numeral_2_eq_2 cancelling_matrix_def norm_c_def)
  have z1: "(\<Sum>j\<leftarrow>[0 + 1..<2]. norm_c (elem (cancelling_matrix_col s e) 0 j)) = 2 * s * (2 * s)"
    by (simp add: numeral_2_eq_2 cancelling_matrix_col_def norm_c_def)
  show ?thesis
    apply (subst bidiagonalize.simps)
    apply (simp only: prod.case Let_def z0 z1 cancelling_column_step_0[OF s] cancelling_row_step_0[OF s])
    apply simp
    done
qed

lemma cancelling_bidiagonalize:
  assumes s: "1 \<le> s" and e: "e * e \<le> tol"
  shows "bidiagonalize 2 2 0 (cancelling_matrix s e, [0, 0], [0, 0])
           = (cancelling_matrix_row s e, [s, 0], [0, 2 * s])"
proof -
  have z2: "(\<Sum>i\<leftarrow>[0 + 1..<2]. norm_c (elem (cancelling_matrix_row s e) i (0 + 1))) = e * e"
    by (simp add: numeral_2_eq_2 cancelling_matrix_row_def norm_c_def)
  have "bidiagonalize 2 2 (0 + 1) (cancelling_matrix_row s e, [s, 0], [0, 2 * s])
          = (cancelling_matrix_row s e, [s, 0], [0, 2 * s])"
    apply (subst bidiagonalize.simps)
    apply (simp only: prod.case Let_def z2)
    apply (simp add: cancelling_column_step_1[OF e])
    done
  then show ?thesis by (simp only: cancelling_bidiagonalize_head[OF s])
qed

lemma cancelling_init:
  assumes s: "1 \<le> s"
  shows "init_S_t 2 [s, 0] [0, 2 * s] ([x, y], [0, 0], 0) = Inr ([s, 0], [0, 2 * s], 2 * s)"
  using s by (simp add: init_S_t_def init_step_def numeral_2_eq_2 vwrite_def vread_def)

lemma rotate_columns_identity:
  "\<exists>M'. rotate_columns nm 2 0 1 cs sn (identity 2) = Inr M'"
  by (simp add: rotate_columns_def numeral_2_eq_2 identity_def mread_def mwrite_def mput_def)

lemma sqrt_25_16: "sqrt (25 / 16) = 5 / 4"
  using real_sqrt_abs2[of "5 / 4"] by simp

lemma cancelling_chase_step:
  assumes s: "1 \<le> s"
  shows "\<exists>cs sn f st'. chase_step 2 1 1 1 (- (4 * s)) s
            \<lparr>qS = [s, 0], qt = [0, 2 * s], qU = identity 2, qV = identity 2\<rparr>
              = Inr (FAILURE, cs, sn, f, s, st') \<and> qS st' = [s, 0]"
proof -
  have pos: "0 < s" "s \<noteq> 0" "\<bar>s\<bar> = s" using s by simp_all
  obtain V' where V': "rotate_columns ''V'' 2 0 1 (- (4 * s / sqrt (20 * (s * s))))
        (2 * s / sqrt (20 * (s * s))) (identity 2) = Inr V'"
    using rotate_columns_identity by blast
  show ?thesis
    using V' by (simp add: chase_step_def vread_def vwrite_def Let_def almost_equal_def zero_threshold_def)
qed

lemma cancelling_qr_round:
  assumes s: "1 \<le> s"
  shows "\<exists>st'. qr_round 2 (2 * s * eta) 1 \<lparr>qS = [s, 0], qt = [0, 2 * s], qU = identity 2, qV = identity 2\<rparr>
           = Inr (Some (FAILURE, 0), st') \<and> qS st' = [s, 0]"
proof -
  let ?st = "\<lparr>qS = [s, 0], qt = [0, 2 * s], qU = identity 2, qV = identity 2\<rparr>"
  have pos: "0 < s" "s \<noteq> 0" "\<bar>s\<bar> = s" using s by simp_all
  have e1: "\<not> \<bar>2 * s\<bar> < 2 * s * eta" "\<not> s < 2 * s * eta" "0 < 2 * s * eta"
    using pos by (simp_all add: eta_def)
  have scan: "deflation_scan [s, 0] [0, 2 * s] (2 * s * eta) 1 = Inr (0, True)"
    apply (subst deflation_scan.simps)
    apply (simp add: vread_def e1 pos)
    apply (subst deflation_scan.simps)
    apply (simp add: vread_def e1 pos)
    done
  from cancelling_chase_step[OF s] obtain cs sn f st' where
    c: "chase_step 2 1 1 1 (- (4 * s)) s ?st = Inr (FAILURE, cs, sn, f, s, st')" and S: "qS st' = [s, 0]"
    by blast
  have ch: "chase 2 1 1 1 1 (- (4 * s)) s ?st = Inr (FAILURE, f, s, st')"
    apply (subst chase.simps)
    apply (simp add: c)
    done
  have "qr_round 2 (2 * s * eta) 1 ?st = Inr (Some (FAILURE, 0), st')"
    unfolding qr_round_def
    apply (simp only: qr_state.simps scan ebind_Inr prod.case)
    apply (simp add: vread_def Let_def sqrt_25_16 pos ch)
    done
  with S show ?thesis by blast
qed

lemma csvd_cancelling_matrix:
  assumes s: "1 \<le> s" and e: "e * e \<le> tol" and S: "length S = 2"
  shows "\<exists>A' U' S' V'. csvd (Suc fuel) (cancelling_matrix s e) U S V = Inr (FAILURE, A', U', S', V') \<and> length S' = 2"
proof -
  obtain x y where xy: "S = [x, y]" using S by (cases S; cases "tl S") auto
  have dims: "GetRows (cancelling_matrix s e) = 2" "GetColumns (cancelling_matrix s e) = 2" by (simp_all add: cancelling_matrix_def)
  have rep: "replicate 2 (0::real) = [0, 0]" by (simp add: numeral_2_eq_2)
  have bd: "bidiagonalize (max (GetRows (cancelling_matrix s e)) (GetColumns (cancelling_matrix s e)))
              (min (GetRows (cancelling_matrix s e)) (GetColumns (cancelling_matrix s e))) 0
              (if GetRows (cancelling_matrix s e) < GetColumns (cancelling_matrix s e) then dagger (cancelling_matrix s e) else cancelling_matrix s e,
               replicate (max (GetRows (cancelling_matrix s e)) (GetColumns (cancelling_matrix s e))) 0,
               (replicate (max (GetRows (cancelling_matrix s e)) (GetColumns (cancelling_matrix s e))) 0)[0 := 0])
            = (cancelling_matrix_row s e, [s, 0], [0, 2 * s])"
    by (simp add: dims rep cancelling_bidiagonalize[OF s e])
  from cancelling_qr_round[OF s] obtain st' where
    r: "qr_round 2 (2 * s * eta) 1 \<lparr>qS = [s, 0], qt = [0, 2 * s], qU = identity 2, qV = identity 2\<rparr>
           = Inr (Some (FAILURE, 0), st')" and S': "qS st' = [s, 0]" by blast
  have rv: "rev [0..<2] = [1, 0]" by (simp add: numeral_2_eq_2)
  have "csvd (Suc fuel) (cancelling_matrix s e) U S V = Inr (FAILURE, cancelling_matrix_row s e, qU st', qS st', qV st')"
    apply (subst csvd_unfold[OF bd])
    apply (simp add: dims xy rep cancelling_init[OF s] rv r)
    done
  with S' show ?thesis by simp
qed

lemma scale_cancelling_matrix: "scale (cancelling_matrix s e) c = cancelling_matrix (s * c) (e * c)"
  by (simp add: scale_def cancelling_matrix_def fun_eq_iff)

lemma rescaled_cancelling_matrix:
  "rescaled (cancelling_matrix s e) j = cancelling_matrix (s * mul_factor ^ j) (e * mul_factor ^ j)"
  by (induction j) (simp_all add: rescaled_def scale_cancelling_matrix mult_ac)

lemma csvd_fails_at_cancelling_matrix:
  assumes "1 \<le> s" "(e * mul_factor ^ j) * (e * mul_factor ^ j) \<le> tol"
  shows "fails_at (csvd (Suc fuel)) 2 (cancelling_matrix s e) j"
proof -
  have "1 * 1 \<le> s * mul_factor ^ j"
    using assms(1) by (intro mult_mono) (simp_all add: mul_factor_def)
  then have "1 \<le> s * mul_factor ^ j" by simp
  from csvd_cancelling_matrix[OF this assms(2)] show ?thesis
    unfolding fails_at_def rescaled_cancelling_matrix by blast
qed

text \<open>
  Claim C1 on the code.  The loop condition is \<open>times \<le> NUM_SVD_TRIES\<close> and the test after
  the loop is \<open>times == NUM_SVD_TRIES\<close>.  So a kernel that fails on \<open>A\<close> and on the first 14
  rescaled matrices and succeeds on the 15th makes the wrapper raise although the kernel
  succeeded; and a kernel that fails on \<open>A\<close> and on every rescaled matrix is called a 16th
  time, leaves the loop with \<open>times = 16\<close>, and the wrapper returns normally, with \<open>S\<close>
  divided by \<open>mul_factor\<^sup>1\<^sup>6\<close>.  Here \<open>n\<close> is the number of entries of \<open>S\<close>.
\<close>

theorem qiskit_csvd_wrapper_retry_count:
  "((\<forall>j\<le>14. fails_at kern n A j) \<and> succeeds_at kern n A 15 \<and> length S = n
      \<longrightarrow> qiskit_csvd_wrapper_with kern A U S V = Inl (RuntimeError ''SVD failed'')) \<and>
   ((\<forall>j\<le>16. fails_at kern n A j) \<and> length S = n
      \<longrightarrow> (\<exists>A' U' S' V'. qiskit_csvd_wrapper_with kern A U S V
              = Inr (A', U', map (\<lambda>s. s / mul_factor ^ 16) S', V')))"
proof (intro conjI impI)
  assume a: "(\<forall>j\<le>14. fails_at kern n A j) \<and> succeeds_at kern n A 15 \<and> length S = n"
  then have "fails_at kern n A 0" "\<forall>j<14. fails_at kern n A (Suc j)" "succeeds_at kern n A (Suc 14)"
    "length S = n"
    by auto
  from wrapper_after_retries[OF this(1-3) _ this(4), of U V]
  show "qiskit_csvd_wrapper_with kern A U S V = Inl (RuntimeError ''SVD failed'')" by simp
next
  assume a: "(\<forall>j\<le>16. fails_at kern n A j) \<and> length S = n"
  then have "fails_at kern n A 0" "\<forall>j<16. fails_at kern n A (Suc j)" "length S = n" by auto
  from wrapper_all_fail[OF this, of U V]
  show "\<exists>A' U' S' V'. qiskit_csvd_wrapper_with kern A U S V
              = Inr (A', U', map (\<lambda>s. s / mul_factor ^ 16) S', V')" .
qed

text \<open>
  The first case on a \<open>1 \<times> 1\<close> matrix, with a kernel that succeeds at the scale \<open>100\<^sup>1\<^sup>5\<close> only.
  The second case on \<^const>\<open>csvd\<close> itself: on the matrix with the rows \<open>(163, 326)\<close> and
  \<open>(0, 0)\<close> and a vector \<open>S\<close> of two entries every one of the 17 calls fails, and the wrapper
  returns.
\<close>

theorem qiskit_csvd_wrapper_retry_count_witness:
  "qiskit_csvd_wrapper_with
      (\<lambda>A U S V. Inr (if elem A 0 0 = 100 ^ 15 then SUCCESS else FAILURE, A, U, S, V))
      (mput (cmatrix 1 1) 0 0 1) (cmatrix 1 1) [0] (cmatrix 1 1) = Inl (RuntimeError ''SVD failed'') \<and>
   (\<exists>A' U' S' V'. qiskit_csvd_wrapper 1 (cancelling_matrix 163 0) (cmatrix 0 0) [0, 0] (cmatrix 0 0)
        = Inr (A', U', map (\<lambda>s. s / mul_factor ^ 16) S', V'))"
proof -
  let ?A = "mput (cmatrix 1 1) 0 0 1"
  let ?k = "\<lambda>A U S V. Inr (if elem A 0 0 = 100 ^ 15 then SUCCESS else FAILURE, A, U, S, V)"
  have e: "elem (rescaled ?A j) 0 0 = 100 ^ j" for j
    by (simp add: elem_rescaled mput_def cmatrix_def mul_factor_def)
  have ne: "(100::complex) ^ j \<noteq> 100 ^ 15" if "j \<le> 14" for j
  proof -
    have "(100::nat) ^ j < 100 ^ 15" using that by (intro power_strict_increasing) simp_all
    then have "(100::nat) ^ j \<noteq> 100 ^ 15" by simp
    then have "of_nat ((100::nat) ^ j) \<noteq> (of_nat (100 ^ 15) :: complex)"
      by (metis of_nat_eq_iff)
    then show ?thesis by simp
  qed
  have f: "\<forall>j\<le>14. fails_at ?k 1 ?A j"
  proof (intro allI impI)
    fix j :: nat assume "j \<le> 14"
    then have "elem (rescaled ?A j) 0 0 \<noteq> 100 ^ 15" using ne[of j] e[of j] by metis
    then have "(if elem (rescaled ?A j) 0 0 = 100 ^ 15 then SUCCESS else FAILURE) = FAILURE"
      by (simp only: if_False)
    then show "fails_at ?k 1 ?A j" unfolding fails_at_def by simp
  qed
  have "(if elem (rescaled ?A 15) 0 0 = 100 ^ 15 then SUCCESS else FAILURE) = SUCCESS"
    by (simp only: e if_True refl simp_thms)
  then have s: "succeeds_at ?k 1 ?A 15"
    unfolding succeeds_at_def by simp
  have l1: "length [0::real] = 1" by simp
  have g: "\<forall>j\<le>16. fails_at (csvd 1) 2 (cancelling_matrix 163 0) j"
    using csvd_fails_at_cancelling_matrix[of 163 0] by (simp add: tol_def)
  have l2: "length [0::real, 0] = 2" by simp
  from qiskit_csvd_wrapper_retry_count[of ?k 1 ?A "[0]" "cmatrix 1 1" "cmatrix 1 1"] f s l1
  have 1: "qiskit_csvd_wrapper_with ?k ?A (cmatrix 1 1) [0] (cmatrix 1 1) = Inl (RuntimeError ''SVD failed'')"
    by blast
  from qiskit_csvd_wrapper_retry_count[of "csvd 1" 2 "cancelling_matrix 163 0" "[0, 0]" "cmatrix 0 0" "cmatrix 0 0"] g l2
  have 2: "\<exists>A' U' S' V'. qiskit_csvd_wrapper_with (csvd 1) (cancelling_matrix 163 0) (cmatrix 0 0) [0, 0] (cmatrix 0 0)
       = Inr (A', U', map (\<lambda>s. s / mul_factor ^ 16) S', V')"
    by blast
  from 1 2 show ?thesis unfolding qiskit_csvd_wrapper_def by blast
qed

end
